theory Spec2Isabelle
  imports Complex_Main
begin

section \<open>Data model of game.js\<close>

text \<open>
  Cells and directions are the JavaScript objects \<^verbatim>\<open>{ x, y }\<close> of the source. Their
  coordinates only ever hold small integers, so they are modelled as \<^typ>\<open>int\<close>.
  The objects are never shared between \<^verbatim>\<open>snake\<close> and \<^verbatim>\<open>previousSnake\<close> (the copy is made
  with a spread), and the objects bound to \<^verbatim>\<open>direction\<close> and \<^verbatim>\<open>nextDirection\<close> are never
  mutated in place, so values are enough and no store is needed.
\<close>

record point =
  x :: int
  y :: int

text \<open>
  The top-level \<^verbatim>\<open>let\<close> variables of the module. Times (milliseconds) and pixel
  sizes are JavaScript numbers; they are modelled as exact rationals. \<^verbatim>\<open>null\<close> is
  \<open>None\<close>. The field \<open>rng\<close> is the sequence of values that the coming calls of
  \<^verbatim>\<open>Math.random()\<close> return.
\<close>

record state =
  tileSize :: rat
  lastTime :: rat
  accumulator :: rat
  snake :: "point list"
  previousSnake :: "point list option"
  direction :: point
  nextDirection :: point
  food :: "point option"
  score :: int
  isRunning :: bool
  isGameOver :: bool
  eatAnimMs :: rat
  touchStartX :: "rat option"
  touchStartY :: "rat option"
  rng :: "nat \<Rightarrow> rat"

text \<open>A dereference of \<^verbatim>\<open>undefined\<close> or \<^verbatim>\<open>null\<close> throws; a loop that does not end
  gives no result at all (\<open>None\<close>).\<close>

datatype error = TypeError

type_synonym 'a result = "(error + 'a) option"

definition tileCount :: int where
  "tileCount = 13"

definition baseSpeed :: int where
  "baseSpeed = 5"

definition moveInterval :: rat where
  "moveInterval = 1000 / of_int baseSpeed"

section \<open>Food placement\<close>

text \<open>\<^verbatim>\<open>Math.random()\<close>: the next value of the sequence, and the rest of it.\<close>

definition Math_random :: "(nat \<Rightarrow> rat) \<Rightarrow> rat \<times> (nat \<Rightarrow> rat)" where
  "Math_random g = (g 0, \<lambda>n. g (Suc n))"

text \<open>
  \<^verbatim>\<open>Math.floor(a * b)\<close>. JavaScript numbers are IEEE doubles: the product is the double
  nearest to the exact product, a tie going to the even mantissa, and the floor is taken
  of that double, which can be the next whole number when the exact product lies just
  below it. For an exact product of at least one half and below 16, the doubles around it
  are \<open>ulp\<close> apart. Below one half the nearest double is at most one half and its floor
  is 0. The products of \<^verbatim>\<open>placeFood\<close> are below 16.
\<close>

definition roundEven :: "rat \<Rightarrow> int" where
  "roundEven q =
     (let n = \<lfloor>q\<rfloor>; f = q - of_int n
      in if f < 1 / 2 then n else if f > 1 / 2 then n + 1 else if even n then n else n + 1)"

definition ulp :: "rat \<Rightarrow> rat" where
  "ulp v =
     (if v < 1 then 1 / 2 ^ 53 else if v < 2 then 1 / 2 ^ 52 else if v < 4 then 1 / 2 ^ 51
      else if v < 8 then 1 / 2 ^ 50 else 1 / 2 ^ 49)"

definition nearestDouble :: "rat \<Rightarrow> rat" where
  "nearestDouble v = of_int (roundEven (v / ulp v)) * ulp v"

definition floorProduct :: "rat \<Rightarrow> int \<Rightarrow> int" where
  "floorProduct a b =
     (let v = a * of_int b in if v < 1 / 2 then 0 else \<lfloor>nearestDouble v\<rfloor>)"

text \<open>\<^verbatim>\<open>snake.some(seg => seg.x === p.x && seg.y === p.y)\<close>\<close>

definition onSnake :: "point list \<Rightarrow> point \<Rightarrow> bool" where
  "onSnake sn p = list_ex (\<lambda>seg. x seg = x p \<and> y seg = y p) sn"

text \<open>The \<^verbatim>\<open>while (true)\<close> loop of \<^verbatim>\<open>placeFood\<close>: draw a cell, keep it if no
  segment lies on it, otherwise draw again.\<close>

partial_function (option) placeFood :: "state \<Rightarrow> state option" where
  "placeFood s =
     (case Math_random (rng s) of (r1, g1) \<Rightarrow>
      case Math_random g1 of (r2, g2) \<Rightarrow>
        if \<not> onSnake (snake s)
               \<lparr>x = floorProduct r1 tileCount, y = floorProduct r2 tileCount\<rparr>
        then Some (s\<lparr>food := Some \<lparr>x = floorProduct r1 tileCount,
                                     y = floorProduct r2 tileCount\<rparr>,
                      rng := g2\<rparr>)
        else placeFood (s\<lparr>rng := g2\<rparr>))"

section \<open>Game init / reset\<close>

text \<open>The argument \<open>now\<close> is the value of \<^verbatim>\<open>performance.now()\<close>.\<close>

definition initGame :: "rat \<Rightarrow> state \<Rightarrow> state option" where
  "initGame now s =
     (let startX = tileCount div 4;
          startY = tileCount div 2;
          sn = [\<lparr>x = startX, y = startY\<rparr>,
                \<lparr>x = startX - 1, y = startY\<rparr>,
                \<lparr>x = startX - 2, y = startY\<rparr>]
      in case placeFood (s\<lparr>snake := sn,
                           previousSnake := Some sn,
                           direction := \<lparr>x = 1, y = 0\<rparr>,
                           nextDirection := \<lparr>x = 1, y = 0\<rparr>,
                           score := 0,
                           eatAnimMs := 0\<rparr>) of
           None \<Rightarrow> None
         | Some s1 \<Rightarrow> Some (s1\<lparr>isRunning := True,
                                isGameOver := False,
                                lastTime := now,
                                accumulator := 0\<rparr>))"

section \<open>One discrete step\<close>

definition gameOver :: "state \<Rightarrow> state" where
  "gameOver s = s\<lparr>isRunning := False, isGameOver := True\<rparr>"

text \<open>Lines 165 to 172: a fresh copy when there is no previous snapshot of the same
  length, otherwise the coordinates are copied into the existing objects.\<close>

definition storePrevious :: "state \<Rightarrow> state" where
  "storePrevious s =
     (case previousSnake s of
        None \<Rightarrow> s\<lparr>previousSnake := Some (snake s)\<rparr>
      | Some prev \<Rightarrow>
          if length prev \<noteq> length (snake s)
          then s\<lparr>previousSnake := Some (snake s)\<rparr>
          else s\<lparr>previousSnake :=
                   Some (map (\<lambda>i. (prev ! i)\<lparr>x := x (snake s ! i), y := y (snake s ! i)\<rparr>)
                             [0..<length (snake s)])\<rparr>)"

text \<open>The wall test of lines 183 to 186.\<close>

definition outside :: "point \<Rightarrow> bool" where
  "outside p = (x p < 0 \<or> x p \<ge> tileCount \<or> y p < 0 \<or> y p \<ge> tileCount)"

definition step :: "state \<Rightarrow> state result" where
  "step s0 =
     (let s1 = storePrevious s0;
          s2 = s1\<lparr>direction := nextDirection s1\<rparr>
      in case snake s2 of
           [] \<Rightarrow> Some (Inl TypeError)
         | head # _ \<Rightarrow>
             (let newHead = \<lparr>x = x head + x (direction s2), y = y head + y (direction s2)\<rparr>
              in if outside newHead then Some (Inr (gameOver s2))
                 else if onSnake (snake s2) newHead then Some (Inr (gameOver s2))
                 else
                   (let s3 = s2\<lparr>snake := newHead # snake s2\<rparr>
                    in (case food s3 of
                          None \<Rightarrow> Some (Inl TypeError)
                        | Some f \<Rightarrow>
                            (if x newHead = x f \<and> y newHead = y f
                             then map_option Inr
                                    (placeFood (s3\<lparr>score := score s3 + 1, eatAnimMs := 200\<rparr>))
                             else Some (Inr (s3\<lparr>snake := butlast (snake s3)\<rparr>)))))))"

section \<open>Main loop with interpolation\<close>

text \<open>The \<^verbatim>\<open>while (accumulator >= moveInterval)\<close> loop of \<^verbatim>\<open>gameLoop\<close>, with its
  \<^verbatim>\<open>break\<close> when a step has ended the game.\<close>

partial_function (option) stepLoop :: "state \<Rightarrow> state result" where
  "stepLoop s =
     (if accumulator s \<ge> moveInterval
      then (case step (s\<lparr>accumulator := accumulator s - moveInterval\<rparr>) of
              None \<Rightarrow> None
            | Some (Inl e) \<Rightarrow> Some (Inl e)
            | Some (Inr s') \<Rightarrow> if \<not> isRunning s' then Some (Inr s') else stepLoop s')
      else Some (Inr s))"

text \<open>Lines 150 to 153: the eating animation timer decays with the frame time.\<close>

definition decay :: "rat \<Rightarrow> state \<Rightarrow> state" where
  "decay delta s =
     (if eatAnimMs s > 0
      then (let s1 = s\<lparr>eatAnimMs := eatAnimMs s - delta\<rparr>
            in if eatAnimMs s1 < 0 then s1\<lparr>eatAnimMs := 0\<rparr> else s1)
      else s)"

text \<open>\<^verbatim>\<open>gameLoop\<close> returns the new state together with the value \<open>interp\<close> that it
  hands to \<^verbatim>\<open>drawEverything\<close>; nothing is drawn (\<open>None\<close>) when the game is not
  running. Drawing reads the state and changes none of it.\<close>

definition gameLoop :: "rat \<Rightarrow> state \<Rightarrow> (state \<times> rat option) result" where
  "gameLoop timestamp s =
     (if \<not> isRunning s then Some (Inr (s, None))
      else
        (let delta = timestamp - lastTime s;
             s1 = s\<lparr>lastTime := timestamp\<rparr>;
             s2 = s1\<lparr>accumulator := accumulator s1 + delta\<rparr>
         in case stepLoop s2 of
              None \<Rightarrow> None
            | Some (Inl e) \<Rightarrow> Some (Inl e)
            | Some (Inr s3) \<Rightarrow>
                (let s4 = decay delta s3;
                     interp = min 1 (accumulator s4 / moveInterval)
                 in Some (Inr (s4, Some interp)))))"

section \<open>Drawing: the interpolated centers\<close>

text \<open>Lines 292 to 303 of \<^verbatim>\<open>drawSnake\<close>. \<^verbatim>\<open>from[i] || cur\<close> is \<open>cur\<close> exactly when the
  index is past the end of \<open>from\<close>: an object is never falsy.\<close>

definition centers :: "rat \<Rightarrow> state \<Rightarrow> (rat \<times> rat) list" where
  "centers interp s =
     (let from = (case previousSnake s of None \<Rightarrow> snake s | Some p \<Rightarrow> p);
          to = snake s
      in map (\<lambda>i.
                let cur = to ! i;
                    prev = (if i < length from then from ! i else cur);
                    sx = (of_int (x prev) + of_int (x cur - x prev) * interp + 1 / 2) * tileSize s;
                    sy = (of_int (y prev) + of_int (y cur - y prev) * interp + 1 / 2) * tileSize s
                in (sx, sy))
             [0..<length to])"

section \<open>Controls\<close>

text \<open>\<^verbatim>\<open>e.key.startsWith('Arrow') || /[wasd]/i.test(e.key)\<close>\<close>

definition startsGame :: "string \<Rightarrow> bool" where
  "startsGame key = (take 5 key = ''Arrow'' \<or> list_ex (\<lambda>c. c \<in> set ''wasdWASD'') key)"

text \<open>The \<^verbatim>\<open>switch (e.key)\<close> of the keydown handler.\<close>

definition switchKey :: "string \<Rightarrow> state \<Rightarrow> state" where
  "switchKey key s =
     (if key = ''ArrowUp'' \<or> key = ''w'' \<or> key = ''W''
      then (if y (direction s) \<noteq> 1 then s\<lparr>nextDirection := \<lparr>x = 0, y = - 1\<rparr>\<rparr> else s)
      else if key = ''ArrowDown'' \<or> key = ''s'' \<or> key = ''S''
      then (if y (direction s) \<noteq> - 1 then s\<lparr>nextDirection := \<lparr>x = 0, y = 1\<rparr>\<rparr> else s)
      else if key = ''ArrowLeft'' \<or> key = ''a'' \<or> key = ''A''
      then (if x (direction s) \<noteq> 1 then s\<lparr>nextDirection := \<lparr>x = - 1, y = 0\<rparr>\<rparr> else s)
      else if key = ''ArrowRight'' \<or> key = ''d'' \<or> key = ''D''
      then (if x (direction s) \<noteq> - 1 then s\<lparr>nextDirection := \<lparr>x = 1, y = 0\<rparr>\<rparr> else s)
      else s)"

definition keydown :: "rat \<Rightarrow> string \<Rightarrow> state \<Rightarrow> state option" where
  "keydown now key s =
     (case (if \<not> isRunning s \<and> \<not> isGameOver s \<and> startsGame key
            then initGame now s else Some s) of
        None \<Rightarrow> None
      | Some s1 \<Rightarrow> Some (switchKey key s1))"

definition touchstart :: "rat \<Rightarrow> rat \<Rightarrow> state \<Rightarrow> state" where
  "touchstart clientX clientY s = s\<lparr>touchStartX := Some clientX, touchStartY := Some clientY\<rparr>"

definition touchend :: "rat \<Rightarrow> rat \<Rightarrow> rat \<Rightarrow> state \<Rightarrow> state option" where
  "touchend now clientX clientY s =
     (case (touchStartX s, touchStartY s) of
        (Some tx, Some ty) \<Rightarrow>
          (case (if \<not> isRunning s \<and> \<not> isGameOver s then initGame now s else Some s) of
             None \<Rightarrow> None
           | Some s1 \<Rightarrow>
               (let dx = clientX - tx;
                    dy = clientY - ty;
                    s2 = (if \<bar>dx\<bar> > \<bar>dy\<bar>
                          then (if dx > 0 \<and> x (direction s1) \<noteq> - 1
                                then s1\<lparr>nextDirection := \<lparr>x = 1, y = 0\<rparr>\<rparr>
                                else if dx < 0 \<and> x (direction s1) \<noteq> 1
                                then s1\<lparr>nextDirection := \<lparr>x = - 1, y = 0\<rparr>\<rparr>
                                else s1)
                          else (if dy > 0 \<and> y (direction s1) \<noteq> - 1
                                then s1\<lparr>nextDirection := \<lparr>x = 0, y = 1\<rparr>\<rparr>
                                else if dy < 0 \<and> y (direction s1) \<noteq> 1
                                then s1\<lparr>nextDirection := \<lparr>x = 0, y = - 1\<rparr>\<rparr>
                                else s1))
                in Some (s2\<lparr>touchStartX := None, touchStartY := None\<rparr>)))
      | _ \<Rightarrow> Some s)"

text \<open>\<^verbatim>\<open>resizeCanvas\<close>, from the client width and height of the wrapper element, which
  are whole numbers of pixels.\<close>

definition resizeCanvas :: "int \<Rightarrow> int \<Rightarrow> state \<Rightarrow> state" where
  "resizeCanvas clientWidth clientHeight s =
     (let size = min (clientWidth - 16) (clientHeight - 16);
          finalSize = max 260 size
      in s\<lparr>tileSize := of_int finalSize / of_int tileCount\<rparr>)"

section \<open>The states the page can reach\<close>

text \<open>The module's top level: the declarations of lines 19 to 34, then
  \<^verbatim>\<open>resizeCanvas()\<close>. \<open>g\<close> is the sequence of values \<^verbatim>\<open>Math.random()\<close> will return.\<close>

definition loaded :: "int \<Rightarrow> int \<Rightarrow> (nat \<Rightarrow> rat) \<Rightarrow> state" where
  "loaded clientWidth clientHeight g =
     resizeCanvas clientWidth clientHeight
       \<lparr>tileSize = 0, lastTime = 0, accumulator = 0,
        snake = [], previousSnake = None,
        direction = \<lparr>x = 1, y = 0\<rparr>, nextDirection = \<lparr>x = 1, y = 0\<rparr>,
        food = None, score = 0, isRunning = False, isGameOver = False,
        eatAnimMs = 0, touchStartX = None, touchStartY = None, rng = g\<rparr>"

text \<open>The callbacks the host can run, each with the values it supplies.\<close>

datatype event =
    Keydown rat string
  | Touchstart rat rat
  | Touchend rat rat rat
  | RestartClick rat
  | AnimationFrame rat
  | Resize int int

definition dispatch :: "event \<Rightarrow> state \<Rightarrow> state result" where
  "dispatch e s =
     (case e of
        Keydown now key \<Rightarrow> map_option Inr (keydown now key s)
      | Touchstart cx cy \<Rightarrow> Some (Inr (touchstart cx cy s))
      | Touchend now cx cy \<Rightarrow> map_option Inr (touchend now cx cy s)
      | RestartClick now \<Rightarrow> map_option Inr (initGame now s)
      | AnimationFrame timestamp \<Rightarrow> map_option (map_sum id fst) (gameLoop timestamp s)
      | Resize w h \<Rightarrow> Some (Inr (resizeCanvas w h s)))"

text \<open>\<^verbatim>\<open>Math.random()\<close> returns a double that is at least 0 and below 1. Such a double is
  a mantissa of at most 53 bits over a power of two that is at most \<open>2 ^ 1074\<close>. Which of
  them it returns is left to the implementation, so the page is taken with any sequence
  of them.\<close>

definition isDouble :: "rat \<Rightarrow> bool" where
  "isDouble r = (\<exists>m k :: nat. m < 2 ^ 53 \<and> k \<le> 1074 \<and> r = of_nat m / 2 ^ k)"

definition randomValues :: "(nat \<Rightarrow> rat) \<Rightarrow> bool" where
  "randomValues g = (\<forall>n. 0 \<le> g n \<and> g n < 1 \<and> isDouble (g n))"

inductive reachable :: "state \<Rightarrow> bool" where
  loaded: "randomValues g \<Longrightarrow> reachable (loaded w h g)"
| event: "reachable s \<Longrightarrow> dispatch e s = Some (Inr s') \<Longrightarrow> reachable s'"


section \<open>Notions used to state the properties\<close>

text \<open>The \<open>n\<close>-th cell that \<^verbatim>\<open>placeFood\<close> draws from a random sequence: two values per
  cell, the first for \<open>x\<close>.\<close>

definition drawn :: "(nat \<Rightarrow> rat) \<Rightarrow> nat \<Rightarrow> point" where
  "drawn g n = \<lparr>x = floorProduct (g (2 * n)) tileCount,
                 y = floorProduct (g (2 * n + 1)) tileCount\<rparr>"

text \<open>The random sequence after \<open>m\<close> values have been consumed.\<close>

definition skip :: "nat \<Rightarrow> (nat \<Rightarrow> rat) \<Rightarrow> nat \<Rightarrow> rat" where
  "skip m g = (\<lambda>k. g (k + m))"


text \<open>The cell that \<^verbatim>\<open>step\<close> computes as the new head: the head moved by the queued
  direction, which \<^verbatim>\<open>step\<close> applies first.\<close>

definition nextHead :: "state \<Rightarrow> point" where
  "nextHead s = \<lparr>x = x (hd (snake s)) + x (nextDirection s),
                  y = y (hd (snake s)) + y (nextDirection s)\<rparr>"

text \<open>What \<^verbatim>\<open>step\<close> has done to every variable but the snake, the food, the score and
  the timer when it reaches the collision tests.\<close>

definition turned :: "state \<Rightarrow> state" where
  "turned s = s\<lparr>previousSnake := Some (snake s), direction := nextDirection s\<rparr>"

text \<open>The state in which \<^verbatim>\<open>step\<close> calls \<^verbatim>\<open>placeFood()\<close> when the new head is on the
  food: the new head is in front, the tail is still there, the score is one more and the
  bite timer is set.\<close>

definition ate :: "state \<Rightarrow> state" where
  "ate s = (turned s)\<lparr>snake := nextHead s # snake s, score := score s + 1, eatAnimMs := 200\<rparr>"

text \<open>The state in which \<^verbatim>\<open>step\<close> returns when the new head is neither a collision nor
  on the food: the new head is in front and the tail is removed.\<close>

definition moved :: "state \<Rightarrow> state" where
  "moved s = (turned s)\<lparr>snake := nextHead s # butlast (snake s)\<rparr>"

text \<open>One round of the loop of \<^verbatim>\<open>gameLoop\<close>: \<^verbatim>\<open>accumulator -= moveInterval; step()\<close>.\<close>

definition tick :: "state \<Rightarrow> state result" where
  "tick s = step (s\<lparr>accumulator := accumulator s - moveInterval\<rparr>)"

text \<open>Exactly \<open>k\<close> rounds, one after the other.\<close>

fun steps :: "nat \<Rightarrow> state \<Rightarrow> state result" where
  "steps 0 s = Some (Inr s)"
| "steps (Suc k) s =
     (case tick s of
        None \<Rightarrow> None
      | Some (Inl e) \<Rightarrow> Some (Inl e)
      | Some (Inr s') \<Rightarrow> steps k s')"

text \<open>The game is running before each of the next \<open>k\<close> rounds.\<close>

fun staysRunning :: "nat \<Rightarrow> state \<Rightarrow> bool" where
  "staysRunning 0 s = True"
| "staysRunning (Suc k) s =
     (isRunning s \<and> (case tick s of Some (Inr s') \<Rightarrow> staysRunning k s' | _ \<Rightarrow> True))"

text \<open>The state in which \<^verbatim>\<open>gameLoop\<close> enters its loop.\<close>

definition frameStart :: "rat \<Rightarrow> state \<Rightarrow> state" where
  "frameStart timestamp s =
     s\<lparr>lastTime := timestamp, accumulator := accumulator s + (timestamp - lastTime s)\<rparr>"

text \<open>The states in which the loop of \<^verbatim>\<open>gameLoop\<close> tests its condition: a callback of a
  running game enters the loop, and every round that leaves the game running comes back
  to the test. The states in which \<^verbatim>\<open>step()\<close> is called are those in which the test
  succeeds, after \<^verbatim>\<open>accumulator -= moveInterval\<close>; \<^verbatim>\<open>gameLoop\<close> is the only caller.\<close>

inductive atLoopHead :: "state \<Rightarrow> bool" where
  enter: "reachable s \<Longrightarrow> isRunning s \<Longrightarrow> atLoopHead (frameStart timestamp s)"
| again: "atLoopHead s \<Longrightarrow> moveInterval \<le> accumulator s \<Longrightarrow> tick s = Some (Inr s') \<Longrightarrow>
          isRunning s' \<Longrightarrow> atLoopHead s'"

inductive stepCalled :: "state \<Rightarrow> bool" where
  called: "atLoopHead s \<Longrightarrow> moveInterval \<le> accumulator s \<Longrightarrow>
           stepCalled (s\<lparr>accumulator := accumulator s - moveInterval\<rparr>)"

text \<open>The state in which the frame at \<open>timestamp\<close> calls \<^verbatim>\<open>step()\<close> for the first time, when
  the frame comes in state \<open>s\<close> and a step is due.\<close>

definition firstStep :: "rat \<Rightarrow> state \<Rightarrow> state" where
  "firstStep timestamp s =
     (frameStart timestamp s)\<lparr>accumulator := accumulator (frameStart timestamp s) - moveInterval\<rparr>"

text \<open>Linear interpolation, the center of a cell in pixels, and the entry of the previous
  snapshot at an index, which is the current one where the previous snapshot has none.\<close>

definition lerp :: "rat \<Rightarrow> rat \<Rightarrow> rat \<Rightarrow> rat" where
  "lerp a b t = a + (b - a) * t"

definition cellCenter :: "rat \<Rightarrow> point \<Rightarrow> rat \<times> rat" where
  "cellCenter ts p = ((of_int (x p) + 1 / 2) * ts, (of_int (y p) + 1 / 2) * ts)"

definition hasPrevious :: "state \<Rightarrow> nat \<Rightarrow> bool" where
  "hasPrevious s i = (case previousSnake s of None \<Rightarrow> True | Some p \<Rightarrow> i < length p)"

definition previousAt :: "state \<Rightarrow> nat \<Rightarrow> point" where
  "previousAt s i =
     (case previousSnake s of
        None \<Rightarrow> snake s ! i
      | Some p \<Rightarrow> if i < length p then p ! i else snake s ! i)"

text \<open>The direction a key asks for, the reverse of a direction, and the four directions.\<close>

definition keyDirection :: "string \<Rightarrow> point option" where
  "keyDirection key =
     (if key = ''ArrowUp'' \<or> key = ''w'' \<or> key = ''W'' then Some \<lparr>x = 0, y = - 1\<rparr>
      else if key = ''ArrowDown'' \<or> key = ''s'' \<or> key = ''S'' then Some \<lparr>x = 0, y = 1\<rparr>
      else if key = ''ArrowLeft'' \<or> key = ''a'' \<or> key = ''A'' then Some \<lparr>x = - 1, y = 0\<rparr>
      else if key = ''ArrowRight'' \<or> key = ''d'' \<or> key = ''D'' then Some \<lparr>x = 1, y = 0\<rparr>
      else None)"

definition opposite :: "point \<Rightarrow> point" where
  "opposite d = \<lparr>x = - x d, y = - y d\<rparr>"

definition unitDirection :: "point \<Rightarrow> bool" where
  "unitDirection d =
     (d = \<lparr>x = 1, y = 0\<rparr> \<or> d = \<lparr>x = - 1, y = 0\<rparr> \<or> d = \<lparr>x = 0, y = 1\<rparr> \<or> d = \<lparr>x = 0, y = - 1\<rparr>)"

text \<open>The requests of a sequence of key presses that are not the reverse of the applied
  direction \<open>dir\<close>, in order.\<close>

definition accepted :: "point \<Rightarrow> string list \<Rightarrow> point list" where
  "accepted dir keys = filter (\<lambda>d. d \<noteq> opposite dir) (List.map_filter keyDirection keys)"

text \<open>Key presses one after the other, with no step in between.\<close>

fun keydowns :: "rat \<Rightarrow> string list \<Rightarrow> state \<Rightarrow> state option" where
  "keydowns now [] s = Some s"
| "keydowns now (key # keys) s =
     (case keydown now key s of None \<Rightarrow> None | Some s' \<Rightarrow> keydowns now keys s')"

text \<open>What holds of every state the page reaches.\<close>

definition invariant :: "state \<Rightarrow> bool" where
  "invariant s =
     (distinct (snake s) \<and> randomValues (rng s) \<and>
      (isRunning s \<longrightarrow> snake s \<noteq> [] \<and> food s \<noteq> None) \<and>
      (\<not> isRunning s \<and> \<not> isGameOver s \<longrightarrow> direction s = \<lparr>x = 1, y = 0\<rparr>) \<and>
      (\<forall>f. food s = Some f \<longrightarrow> f \<notin> set (snake s) \<and> \<not> outside f) \<and>
      unitDirection (direction s) \<and> unitDirection (nextDirection s))"

section \<open>Concrete states\<close>

text \<open>A random sequence of zeros: every cell drawn is the corner \<open>(0, 0)\<close>.\<close>

definition zeros :: "nat \<Rightarrow> rat" where
  "zeros = (\<lambda>n. 0)"


text \<open>A random sequence whose first draw is the cell \<open>(4, 6)\<close>, just ahead of a new snake,
  and whose later draws are the corner.\<close>

definition ahead :: "nat \<Rightarrow> rat" where
  "ahead = (\<lambda>n. if n = 0 then 5 / 16 else if n = 1 then 1 / 2 else 0)"

text \<open>A game just started on a 300 by 300 wrapper, the food in the corner.\<close>

definition started :: state where
  "started =
     \<lparr>tileSize = 284 / 13, lastTime = 0, accumulator = 0,
      snake = [\<lparr>x = 3, y = 6\<rparr>, \<lparr>x = 2, y = 6\<rparr>, \<lparr>x = 1, y = 6\<rparr>],
      previousSnake = Some [\<lparr>x = 3, y = 6\<rparr>, \<lparr>x = 2, y = 6\<rparr>, \<lparr>x = 1, y = 6\<rparr>],
      direction = \<lparr>x = 1, y = 0\<rparr>, nextDirection = \<lparr>x = 1, y = 0\<rparr>,
      food = Some \<lparr>x = 0, y = 0\<rparr>, score = 0, isRunning = True, isGameOver = False,
      eatAnimMs = 0, touchStartX = None, touchStartY = None, rng = zeros\<rparr>"

text \<open>The same with the food just ahead of the head.\<close>

definition startedAhead :: state where
  "startedAhead = started\<lparr>food := Some \<lparr>x = 4, y = 6\<rparr>\<rparr>"

text \<open>The same after the player has asked for Up.\<close>

definition queuedUp :: state where
  "queuedUp = started\<lparr>nextDirection := \<lparr>x = 0, y = - 1\<rparr>\<rparr>"


text \<open>A snake in the top right corner moving right, Up requested.\<close>

definition atWall :: state where
  "atWall =
     started\<lparr>snake := [\<lparr>x = 12, y = 0\<rparr>, \<lparr>x = 11, y = 0\<rparr>, \<lparr>x = 10, y = 0\<rparr>],
             previousSnake := Some [\<lparr>x = 11, y = 0\<rparr>, \<lparr>x = 10, y = 0\<rparr>, \<lparr>x = 9, y = 0\<rparr>],
             nextDirection := \<lparr>x = 0, y = - 1\<rparr>\<rparr>"

text \<open>A snake of four cells curled in a square, moving left, Down requested: the new head
  is the cell of the tail.\<close>

definition curled :: state where
  "curled =
     started\<lparr>snake := [\<lparr>x = 1, y = 1\<rparr>, \<lparr>x = 2, y = 1\<rparr>, \<lparr>x = 2, y = 2\<rparr>, \<lparr>x = 1, y = 2\<rparr>],
             previousSnake := Some [\<lparr>x = 2, y = 1\<rparr>, \<lparr>x = 2, y = 2\<rparr>, \<lparr>x = 1, y = 2\<rparr>, \<lparr>x = 0, y = 2\<rparr>],
             direction := \<lparr>x = - 1, y = 0\<rparr>,
             nextDirection := \<lparr>x = 0, y = 1\<rparr>,
             score := 1\<rparr>"

text \<open>A snake that has just eaten: four cells now, three in the previous snapshot.\<close>

definition grown :: state where
  "grown =
     started\<lparr>snake := [\<lparr>x = 4, y = 6\<rparr>, \<lparr>x = 3, y = 6\<rparr>, \<lparr>x = 2, y = 6\<rparr>, \<lparr>x = 1, y = 6\<rparr>],
             score := 1, eatAnimMs := 200\<rparr>"

text \<open>The state in which \<^verbatim>\<open>step()\<close> is called by the frame that comes 200 ms after the
  start, with the food just ahead of the head.\<close>

definition eatingStep :: state where
  "eatingStep = startedAhead\<lparr>lastTime := 200\<rparr>"

text \<open>The state in which \<^verbatim>\<open>step()\<close> is called for the second time by a frame that comes
  400 ms after the start: the first step has moved the snake one cell.\<close>

definition secondStep :: state where
  "secondStep = started\<lparr>lastTime := 400,
                         snake := [\<lparr>x = 4, y = 6\<rparr>, \<lparr>x = 3, y = 6\<rparr>, \<lparr>x = 2, y = 6\<rparr>]\<rparr>"

text \<open>The game-over screen after the player has turned up and the snake has run into the
  top wall, in a frame that comes 1400 ms after the start.\<close>

definition crashed :: state where
  "crashed =
     started\<lparr>lastTime := 1400,
             snake := [\<lparr>x = 3, y = 0\<rparr>, \<lparr>x = 3, y = 1\<rparr>, \<lparr>x = 3, y = 2\<rparr>],
             previousSnake := Some [\<lparr>x = 3, y = 0\<rparr>, \<lparr>x = 3, y = 1\<rparr>, \<lparr>x = 3, y = 2\<rparr>],
             direction := \<lparr>x = 0, y = - 1\<rparr>,
             nextDirection := \<lparr>x = 0, y = - 1\<rparr>,
             isRunning := False,
             isGameOver := True\<rparr>"

text \<open>The state in which \<^verbatim>\<open>step()\<close> is called for the seventh and last time by that frame:
  the head is in the top row and the snake moves up.\<close>

definition lastStep :: state where
  "lastStep =
     started\<lparr>lastTime := 1400,
             snake := [\<lparr>x = 3, y = 0\<rparr>, \<lparr>x = 3, y = 1\<rparr>, \<lparr>x = 3, y = 2\<rparr>],
             previousSnake := Some [\<lparr>x = 3, y = 1\<rparr>, \<lparr>x = 3, y = 2\<rparr>, \<lparr>x = 3, y = 3\<rparr>],
             direction := \<lparr>x = 0, y = - 1\<rparr>,
             nextDirection := \<lparr>x = 0, y = - 1\<rparr>\<rparr>"

section \<open>Basic facts\<close>

lemma point_eq_iff: "(p = q) = (x p = x q \<and> y p = y q)" for p q :: point
  by auto

lemma onSnake_iff: "onSnake sn p = (p \<in> set sn)"
proof -
  have "onSnake sn p = (\<exists>seg\<in>set sn. seg = p)"
    unfolding onSnake_def list_ex_iff point_eq_iff ..
  then show ?thesis by auto
qed

lemma moveInterval_200: "moveInterval = 200"
  by (simp add: moveInterval_def baseSpeed_def)

section \<open>Food placement returns exactly when a free cell is drawn\<close>

lemma placeFood_unfold:
  "placeFood s =
     (if drawn (rng s) 0 \<notin> set (snake s)
      then Some (s\<lparr>food := Some (drawn (rng s) 0), rng := skip 2 (rng s)\<rparr>)
      else placeFood (s\<lparr>rng := skip 2 (rng s)\<rparr>))"
  by (subst placeFood.simps) (simp add: Math_random_def drawn_def onSnake_iff skip_def)

lemma drawn_skip: "drawn (skip 2 g) m = drawn g (Suc m)"
  by (simp add: drawn_def skip_def add.commute)

lemma skip_skip: "skip a (skip b g) = skip (a + b) g"
  by (simp add: skip_def add.assoc)

lemma placeFood_returns:
  "drawn (rng s) n \<notin> set (snake s) \<Longrightarrow> (\<forall>m<n. drawn (rng s) m \<in> set (snake s)) \<Longrightarrow>
   placeFood s = Some (s\<lparr>food := Some (drawn (rng s) n), rng := skip (2 * Suc n) (rng s)\<rparr>)"
proof (induction n arbitrary: s)
  case 0
  then show ?case by (subst placeFood_unfold) simp
next
  case (Suc n)
  let ?s = "s\<lparr>rng := skip 2 (rng s)\<rparr>"
  from Suc.prems have occ: "drawn (rng s) 0 \<in> set (snake s)" by blast
  have a: "drawn (rng ?s) n \<notin> set (snake ?s)"
    using Suc.prems(1) by (simp add: drawn_skip)
  have b: "\<forall>m<n. drawn (rng ?s) m \<in> set (snake ?s)"
    using Suc.prems(2) by (simp add: drawn_skip)
  have "placeFood s = placeFood ?s"
    using occ by (subst placeFood_unfold) simp
  also have "\<dots> = Some (?s\<lparr>food := Some (drawn (rng ?s) n), rng := skip (2 * Suc n) (rng ?s)\<rparr>)"
    by (rule Suc.IH [OF a b])
  finally show ?case by (simp add: drawn_skip skip_skip)
qed

lemma placeFood_Some_free:
  "placeFood s = Some s' \<Longrightarrow> \<exists>n. drawn (rng s) n \<notin> set (snake s)"
proof (induction s s' rule: placeFood.raw_induct [rotated 1, consumes 1])
  case (1 pf s s')
  show ?case
  proof (cases "drawn (rng s) 0 \<in> set (snake s)")
    case False
    then show ?thesis by blast
  next
    case True
    with 1(2) have "pf (s\<lparr>rng := skip 2 (rng s)\<rparr>) = Some s'"
      by (simp add: Math_random_def drawn_def onSnake_iff skip_def)
    from 1(1) [OF this] obtain n where "drawn (skip 2 (rng s)) n \<notin> set (snake s)"
      by auto
    then show ?thesis by (auto simp: drawn_skip)
  qed
qed

lemma placeFood_cases:
  "placeFood s = None \<and> (\<forall>n. drawn (rng s) n \<in> set (snake s)) \<or>
   (\<exists>n. drawn (rng s) n \<notin> set (snake s) \<and> (\<forall>m<n. drawn (rng s) m \<in> set (snake s)) \<and>
        placeFood s = Some (s\<lparr>food := Some (drawn (rng s) n), rng := skip (2 * Suc n) (rng s)\<rparr>))"
proof (cases "\<exists>n. drawn (rng s) n \<notin> set (snake s)")
  case True
  define n where "n = (LEAST n. drawn (rng s) n \<notin> set (snake s))"
  from True have a: "drawn (rng s) n \<notin> set (snake s)"
    unfolding n_def by (rule LeastI_ex)
  have b: "\<forall>m<n. drawn (rng s) m \<in> set (snake s)"
    unfolding n_def using not_less_Least by blast
  from placeFood_returns [OF a b] a b show ?thesis by blast
next
  case False
  then have "placeFood s = None"
    using placeFood_Some_free [of s] by (cases "placeFood s") auto
  with False show ?thesis by simp
qed

lemma placeFood_SomeD:
  assumes "placeFood s = Some s'"
  obtains n where "drawn (rng s) n \<notin> set (snake s)"
    and "s' = s\<lparr>food := Some (drawn (rng s) n), rng := skip (2 * Suc n) (rng s)\<rparr>"
  using placeFood_cases [of s] assms by auto

section \<open>What a step does\<close>

lemma storePrevious_eq: "storePrevious s = s\<lparr>previousSnake := Some (snake s)\<rparr>"
proof (cases "previousSnake s")
  case None
  then show ?thesis by (simp add: storePrevious_def)
next
  case (Some prev)
  show ?thesis
  proof (cases "length prev = length (snake s)")
    case False
    with Some show ?thesis by (simp add: storePrevious_def)
  next
    case True
    have "map (\<lambda>i. (prev ! i)\<lparr>x := x (snake s ! i), y := y (snake s ! i)\<rparr>) [0..<length (snake s)]
          = snake s"
      by (rule nth_equalityI) (simp_all add: point_eq_iff)
    with Some True show ?thesis by (simp add: storePrevious_def)
  qed
qed

lemma step_eq:
  assumes "snake s \<noteq> []"
  shows "step s =
     (if outside (nextHead s) \<or> nextHead s \<in> set (snake s) then Some (Inr (gameOver (turned s)))
      else case food s of
             None \<Rightarrow> Some (Inl TypeError)
           | Some f \<Rightarrow>
               if nextHead s = f
               then map_option Inr (placeFood ((turned s)\<lparr>snake := nextHead s # snake s,
                                                         score := score s + 1, eatAnimMs := 200\<rparr>))
               else Some (Inr ((turned s)\<lparr>snake := nextHead s # butlast (snake s)\<rparr>)))"
proof -
  from assms obtain h t where ht: "snake s = h # t" by (cases "snake s") auto
  show ?thesis
    by (simp add: step_def storePrevious_eq ht nextHead_def turned_def onSnake_iff Let_def
        point_eq_iff split: option.split)
qed

lemma step_collides:
  "snake s \<noteq> [] \<Longrightarrow> outside (nextHead s) \<or> nextHead s \<in> set (snake s) \<Longrightarrow>
   step s = Some (Inr (gameOver (turned s)))"
  by (simp add: step_eq)

section \<open>Collisions\<close>

text \<open>
  C3. The self-collision test of \<^verbatim>\<open>step\<close> runs before the tail is removed: when the new
  head is the cell of any segment of the snake, the cell of the tail included, the step
  ends the game.
\<close>

theorem step_self_collision_includes_tail:
  assumes "snake s \<noteq> []"
    and "nextHead s \<in> set (butlast (snake s)) \<or> nextHead s = last (snake s)"
  shows "step s = Some (Inr (gameOver (turned s))) \<and>
         isGameOver (gameOver (turned s)) \<and> \<not> isRunning (gameOver (turned s))"
proof -
  from assms have "nextHead s \<in> set (snake s)"
    by (auto dest: in_set_butlastD)
  with assms(1) show ?thesis
    by (simp add: step_collides gameOver_def)
qed

theorem step_self_collision_includes_tail_witness:
  "snake curled \<noteq> [] \<and> nextHead curled = last (snake curled) \<and>
   \<not> outside (nextHead curled) \<and>
   step curled = Some (Inr (gameOver (turned curled))) \<and>
   isGameOver (gameOver (turned curled)) \<and> \<not> isRunning (gameOver (turned curled))"
proof -
  have a: "snake curled \<noteq> []"
    by (simp add: curled_def started_def)
  have b: "nextHead curled = last (snake curled)"
    by (simp add: curled_def started_def nextHead_def)
  have c: "\<not> outside (nextHead curled)"
    by (simp add: curled_def started_def nextHead_def outside_def tileCount_def)
  from step_self_collision_includes_tail [OF a disjI2 [OF b]] a b c show ?thesis
    by simp
qed

text \<open>
  C8. A step that collides, with a wall (the new head lies outside the board on either
  axis) or with the snake itself, puts the machine in GameOver and leaves the snake, the
  food and the score exactly as they were.
\<close>

theorem collided_step_keeps_snake_food_score:
  assumes "snake s \<noteq> []"
    and "outside (nextHead s) \<or> nextHead s \<in> set (snake s)"
  shows "step s = Some (Inr (gameOver (turned s))) \<and>
         isGameOver (gameOver (turned s)) \<and> \<not> isRunning (gameOver (turned s)) \<and>
         snake (gameOver (turned s)) = snake s \<and>
         food (gameOver (turned s)) = food s \<and>
         score (gameOver (turned s)) = score s"
  using assms by (simp add: step_collides gameOver_def turned_def)

theorem collided_step_keeps_snake_food_score_witness:
  "snake atWall \<noteq> [] \<and> outside (nextHead atWall) \<and>
   step atWall = Some (Inr (gameOver (turned atWall))) \<and>
   isGameOver (gameOver (turned atWall)) \<and> \<not> isRunning (gameOver (turned atWall)) \<and>
   snake (gameOver (turned atWall)) = [\<lparr>x = 12, y = 0\<rparr>, \<lparr>x = 11, y = 0\<rparr>, \<lparr>x = 10, y = 0\<rparr>] \<and>
   food (gameOver (turned atWall)) = Some \<lparr>x = 0, y = 0\<rparr> \<and>
   score (gameOver (turned atWall)) = 0"
proof -
  have a: "snake atWall \<noteq> []"
    by (simp add: atWall_def started_def)
  have b: "outside (nextHead atWall)"
    by (simp add: atWall_def started_def nextHead_def outside_def)
  from collided_step_keeps_snake_food_score [OF a disjI1 [OF b]] a b show ?thesis
    by (simp add: atWall_def started_def)
qed

text \<open>
  C10. \<^verbatim>\<open>step\<close> overwrites the applied direction with the queued one before it tests for
  a collision: after a step that ends the game, the stored direction is the last queued
  request, whatever the direction of the last completed move was.
\<close>

theorem collided_step_direction_is_queued:
  assumes "snake s \<noteq> []"
    and "outside (nextHead s) \<or> nextHead s \<in> set (snake s)"
  shows "step s = Some (Inr (gameOver (turned s))) \<and>
         isGameOver (gameOver (turned s)) \<and>
         direction (gameOver (turned s)) = nextDirection s"
  using assms by (simp add: step_collides gameOver_def turned_def)

theorem collided_step_direction_is_queued_witness:
  "snake atWall \<noteq> [] \<and> outside (nextHead atWall) \<and>
   direction atWall = \<lparr>x = 1, y = 0\<rparr> \<and>
   step atWall = Some (Inr (gameOver (turned atWall))) \<and>
   isGameOver (gameOver (turned atWall)) \<and>
   direction (gameOver (turned atWall)) = \<lparr>x = 0, y = - 1\<rparr>"
proof -
  have a: "snake atWall \<noteq> []"
    by (simp add: atWall_def started_def)
  have b: "outside (nextHead atWall)"
    by (simp add: atWall_def started_def nextHead_def outside_def)
  from collided_step_direction_is_queued [OF a disjI1 [OF b]] a b show ?thesis
    by (simp add: atWall_def started_def)
qed

section \<open>The invariant of the reachable states\<close>

lemma roundEven_le: "q < of_int m + 1 / 2 \<Longrightarrow> roundEven q \<le> m"
proof -
  assume a: "q < of_int m + 1 / 2"
  have fq: "of_int \<lfloor>q\<rfloor> \<le> q" by simp
  from a have "q < of_int (m + 1)" by simp
  then have "\<lfloor>q\<rfloor> < m + 1" by (simp only: floor_less_iff)
  then have le: "\<lfloor>q\<rfloor> \<le> m" by simp
  show ?thesis
  proof (cases "q - of_int \<lfloor>q\<rfloor> < 1 / 2")
    case True
    with le show ?thesis by (simp add: roundEven_def Let_def)
  next
    case False
    with a fq have "of_int \<lfloor>q\<rfloor> < (of_int m :: rat)" by linarith
    then have "\<lfloor>q\<rfloor> < m" by simp
    then show ?thesis by (simp add: roundEven_def Let_def)
  qed
qed

lemma roundEven_nonneg: "0 \<le> q \<Longrightarrow> 0 \<le> roundEven q"
  by (simp add: roundEven_def Let_def)

lemma nearestDouble_le:
  assumes "v / ulp v < of_int m + 1 / 2"
  shows "nearestDouble v \<le> of_int m * ulp v"
proof -
  have "0 < ulp v" by (simp add: ulp_def)
  moreover from assms have "roundEven (v / ulp v) \<le> m" by (rule roundEven_le)
  ultimately show ?thesis
    by (simp add: nearestDouble_def mult_right_mono)
qed

lemma floorProduct_range:
  assumes "0 \<le> r" and "r \<le> 1 - 1 / 2 ^ 53"
  shows "0 \<le> floorProduct r 13 \<and> floorProduct r 13 < 13"
proof (cases "r * 13 < 1 / 2")
  case True
  then show ?thesis by (simp add: floorProduct_def)
next
  case False
  let ?v = "r * 13"
  have pos: "0 \<le> ?v" using assms(1) by simp
  have up: "?v \<le> 13 - 13 / 2 ^ 53" using assms(2) by simp
  have "0 < ulp ?v" by (simp add: ulp_def)
  with pos have "0 \<le> ?v / ulp ?v" by simp
  then have "0 \<le> roundEven (?v / ulp ?v)" by (rule roundEven_nonneg)
  with \<open>0 < ulp ?v\<close> have lo: "0 \<le> nearestDouble ?v"
    by (simp add: nearestDouble_def)
  have hi: "nearestDouble ?v < 13"
  proof (cases "?v < 8")
    case True
    have "nearestDouble ?v \<le> 8"
    proof -
      consider "?v < 1" | "1 \<le> ?v" "?v < 2" | "2 \<le> ?v" "?v < 4" | "4 \<le> ?v" "?v < 8"
        using True by linarith
      then show ?thesis
      proof cases
        case 1
        then have "?v / ulp ?v < of_int (2 ^ 53) + 1 / 2" by (simp add: ulp_def)
        from nearestDouble_le [OF this] 1 show ?thesis by (simp add: ulp_def)
      next
        case 2
        then have "?v / ulp ?v < of_int (2 ^ 53) + 1 / 2" by (simp add: ulp_def)
        from nearestDouble_le [OF this] 2 show ?thesis by (simp add: ulp_def)
      next
        case 3
        then have "?v / ulp ?v < of_int (2 ^ 53) + 1 / 2" by (simp add: ulp_def)
        from nearestDouble_le [OF this] 3 show ?thesis by (simp add: ulp_def)
      next
        case 4
        then have "?v / ulp ?v < of_int (2 ^ 53) + 1 / 2" by (simp add: ulp_def)
        from nearestDouble_le [OF this] 4 show ?thesis by (simp add: ulp_def)
      qed
    qed
    then show ?thesis by simp
  next
    case False
    then have u: "ulp ?v = 1 / 2 ^ 49" by (simp add: ulp_def)
    from up have "?v / ulp ?v < of_int (13 * 2 ^ 49 - 1) + 1 / 2"
      unfolding u by simp
    from nearestDouble_le [OF this] have "nearestDouble ?v \<le> of_int (13 * 2 ^ 49 - 1) * (1 / 2 ^ 49)"
      unfolding u .
    then show ?thesis by simp
  qed
  from lo hi False show ?thesis
    by (simp add: floorProduct_def floor_less_iff)
qed

text \<open>A product that lies just below 9 is the double 9: the exact floor would be 8.\<close>

lemma floorProduct_rounds_up: "floorProduct (3117876665102651 / 2 ^ 52) 13 = 9"
proof -
  have fl: "\<lfloor>(40532396646334463 :: rat) / 8\<rfloor> = 5066549580791807"
    by (simp add: floor_eq_iff)
  have "roundEven (40532396646334463 / 8) = 5066549580791808"
    by (simp add: roundEven_def Let_def fl)
  then show ?thesis
    by (simp add: floorProduct_def nearestDouble_def ulp_def)
qed

text \<open>The largest double below 1 is \<open>1 - 1 / 2 ^ 53\<close>.\<close>

lemma isDouble_below_one:
  assumes "isDouble r" and "r < 1"
  shows "r \<le> 1 - 1 / 2 ^ 53"
proof -
  from assms(1) obtain m k :: nat where m: "m < 2 ^ 53" and r: "r = of_nat m / 2 ^ k"
    unfolding isDouble_def by blast
  show ?thesis
  proof (cases "k \<le> 53")
    case True
    from assms(2) r have "(of_nat m :: rat) < 2 ^ k" by simp
    then have "(of_nat m :: rat) < of_nat (2 ^ k)" by simp
    then have "m < 2 ^ k" by (simp only: of_nat_less_iff)
    then have "m + 1 \<le> 2 ^ k" by simp
    then have "(of_nat (m + 1) :: rat) \<le> of_nat (2 ^ k)" by (simp only: of_nat_le_iff)
    then have "(of_nat m :: rat) \<le> 2 ^ k - 1" by simp
    then have "r \<le> (2 ^ k - 1) / 2 ^ k" unfolding r by (simp add: divide_right_mono)
    also have "\<dots> = 1 - 1 / 2 ^ k" by (simp add: diff_divide_distrib)
    also have "\<dots> \<le> 1 - 1 / 2 ^ 53"
    proof -
      from True have "(2 :: rat) ^ k \<le> 2 ^ 53" by (intro power_increasing) simp_all
      then have "1 / (2 :: rat) ^ 53 \<le> 1 / 2 ^ k" by (intro divide_left_mono) simp_all
      then show ?thesis by simp
    qed
    finally show ?thesis .
  next
    case False
    then have "(2 :: rat) ^ 54 \<le> 2 ^ k" by (intro power_increasing) simp_all
    moreover from m have "(of_nat m :: rat) < of_nat (2 ^ 53)" by (simp only: of_nat_less_iff)
    then have "(of_nat m :: rat) < 2 ^ 53" by simp
    ultimately have "of_nat m * 2 < (2 :: rat) ^ k" by simp
    then have "r < 1 / 2" unfolding r by (simp add: field_simps)
    then show ?thesis by simp
  qed
qed

lemma drawn_inside: "randomValues g \<Longrightarrow> \<not> outside (drawn g n)"
proof -
  assume u: "randomValues g"
  then have "0 \<le> g (2 * n) \<and> g (2 * n) \<le> 1 - 1 / 2 ^ 53"
    "0 \<le> g (2 * n + 1) \<and> g (2 * n + 1) \<le> 1 - 1 / 2 ^ 53"
    unfolding randomValues_def by (blast intro: isDouble_below_one)+
  then show ?thesis
    using floorProduct_range [of "g (2 * n)"] floorProduct_range [of "g (2 * n + 1)"]
    by (simp add: outside_def drawn_def tileCount_def not_le)
qed

lemma randomValues_skip: "randomValues g \<Longrightarrow> randomValues (skip m g)"
  by (simp add: randomValues_def skip_def)

lemma placeFood_establishes:
  assumes "placeFood s = Some s'" "distinct (snake s)" "randomValues (rng s)" "snake s \<noteq> []"
    "unitDirection (direction s)" "unitDirection (nextDirection s)"
    "isRunning s \<or> isGameOver s \<or> direction s = \<lparr>x = 1, y = 0\<rparr>"
  shows "invariant s' \<and> food s' \<noteq> None"
proof -
  from assms(1) obtain n where n: "drawn (rng s) n \<notin> set (snake s)"
    and s': "s' = s\<lparr>food := Some (drawn (rng s) n), rng := skip (2 * Suc n) (rng s)\<rparr>"
    by (rule placeFood_SomeD)
  from assms(2-) n show ?thesis
    unfolding s' invariant_def by (auto simp: drawn_inside randomValues_skip)
qed

lemma placeFood_fields:
  assumes "placeFood s = Some s'"
  shows "snake s' = snake s" "score s' = score s" "isRunning s' = isRunning s"
    "isGameOver s' = isGameOver s" "accumulator s' = accumulator s"
    "direction s' = direction s" "nextDirection s' = nextDirection s"
    "eatAnimMs s' = eatAnimMs s" "previousSnake s' = previousSnake s"
    "lastTime s' = lastTime s" "tileSize s' = tileSize s"
proof -
  from assms obtain n where
    "s' = s\<lparr>food := Some (drawn (rng s) n), rng := skip (2 * Suc n) (rng s)\<rparr>"
    by (rule placeFood_SomeD)
  then show "snake s' = snake s" "score s' = score s" "isRunning s' = isRunning s"
    "isGameOver s' = isGameOver s" "accumulator s' = accumulator s"
    "direction s' = direction s" "nextDirection s' = nextDirection s"
    "eatAnimMs s' = eatAnimMs s" "previousSnake s' = previousSnake s"
    "lastTime s' = lastTime s" "tileSize s' = tileSize s"
    by simp_all
qed

lemma initGame_invariant:
  assumes "initGame now s = Some s'" "randomValues (rng s)"
  shows "invariant s' \<and> isRunning s'"
proof -
  let ?sn = "[\<lparr>x = 3, y = 6\<rparr>, \<lparr>x = 2, y = 6\<rparr>, \<lparr>x = 1, y = 6\<rparr>]"
  let ?s0 = "s\<lparr>snake := ?sn, previousSnake := Some ?sn, direction := \<lparr>x = 1, y = 0\<rparr>,
               nextDirection := \<lparr>x = 1, y = 0\<rparr>, score := 0, eatAnimMs := 0\<rparr>"
  from assms(1) obtain s1 where p: "placeFood ?s0 = Some s1"
    and s': "s' = s1\<lparr>isRunning := True, isGameOver := False, lastTime := now, accumulator := 0\<rparr>"
    by (auto simp: initGame_def tileCount_def Let_def split: option.splits)
  have "invariant s1 \<and> food s1 \<noteq> None"
    by (rule placeFood_establishes [OF p]) (simp_all add: assms(2) unitDirection_def)
  moreover have "snake s1 = ?sn"
    using placeFood_fields(1) [OF p] by simp
  ultimately show ?thesis
    unfolding s' invariant_def by auto
qed

lemma step_invariant:
  assumes "invariant s" "isRunning s" "step s = Some r"
  shows "\<exists>s'. r = Inr s' \<and> invariant s' \<and> accumulator s' = accumulator s"
proof -
  from assms(1,2) obtain f where ne: "snake s \<noteq> []" and f: "food s = Some f"
    and fs: "f \<notin> set (snake s)" and d: "distinct (snake s)"
    unfolding invariant_def by auto
  show ?thesis
  proof (cases "outside (nextHead s) \<or> nextHead s \<in> set (snake s)")
    case True
    with ne assms(3) have "r = Inr (gameOver (turned s))"
      by (simp add: step_collides)
    moreover have "invariant (gameOver (turned s))"
      using assms(1) unfolding invariant_def gameOver_def turned_def by simp
    ultimately show ?thesis
      by (simp add: gameOver_def turned_def)
  next
    case False
    show ?thesis
    proof (cases "nextHead s = f")
      case True
      let ?s3 = "(turned s)\<lparr>snake := nextHead s # snake s, score := score s + 1, eatAnimMs := 200\<rparr>"
      from assms(3) ne False f True obtain s' where p: "placeFood ?s3 = Some s'" and r: "r = Inr s'"
        by (auto simp: step_eq)
      have "invariant s' \<and> food s' \<noteq> None"
        by (rule placeFood_establishes [OF p])
          (use assms(1,2) False in \<open>simp_all add: invariant_def turned_def\<close>)
      moreover have "accumulator s' = accumulator s"
        using placeFood_fields(5) [OF p] by (simp add: turned_def)
      ultimately show ?thesis using r by simp
    next
      case neq: False
      let ?s' = "(turned s)\<lparr>snake := nextHead s # butlast (snake s)\<rparr>"
      from assms(3) ne False f neq have r: "r = Inr ?s'"
        by (simp add: step_eq)
      have "nextHead s \<notin> set (butlast (snake s))" "f \<notin> set (butlast (snake s))"
        using False fs by (auto dest: in_set_butlastD)
      then have "invariant ?s'"
        using assms(1,2) f neq unfolding invariant_def turned_def
        by (auto simp: distinct_butlast)
      then show ?thesis using r by (simp add: turned_def)
    qed
  qed
qed

lemma stepLoop_invariant:
  "stepLoop s = Some r \<Longrightarrow> invariant s \<Longrightarrow> isRunning s \<Longrightarrow> \<exists>s'. r = Inr s' \<and> invariant s'"
proof (induction s r rule: stepLoop.raw_induct [rotated 1, consumes 1])
  case (1 loop s r)
  show ?case
  proof (cases "moveInterval \<le> accumulator s")
    case False
    with 1(2,3) show ?thesis by auto
  next
    case True
    let ?s = "s\<lparr>accumulator := accumulator s - moveInterval\<rparr>"
    have inv: "invariant ?s" "isRunning ?s"
      using 1(3,4) by (simp_all add: invariant_def)
    from 1(2) True obtain r1 where st: "step ?s = Some r1"
      by (cases "step ?s") auto
    from step_invariant [OF inv st] obtain s1 where r1: "r1 = Inr s1" and i1: "invariant s1"
      by blast
    show ?thesis
    proof (cases "isRunning s1")
      case False
      with 1(2) True st r1 i1 show ?thesis by auto
    next
      case run: True
      with 1(2) True st r1 have "loop s1 = Some r" by simp
      from 1(1) [OF this i1 run] show ?thesis .
    qed
  qed
qed

lemma decay_invariant: "invariant s \<Longrightarrow> invariant (decay delta s)"
  by (simp add: decay_def invariant_def Let_def)

lemma gameLoop_invariant:
  assumes "invariant s" "gameLoop timestamp s = Some (Inr (s', i))"
  shows "invariant s'"
proof (cases "isRunning s")
  case False
  with assms show ?thesis by (simp add: gameLoop_def)
next
  case True
  let ?s2 = "s\<lparr>lastTime := timestamp, accumulator := accumulator s + (timestamp - lastTime s)\<rparr>"
  from assms(2) True obtain r where l: "stepLoop ?s2 = Some r"
    by (cases "stepLoop ?s2") (auto simp: gameLoop_def Let_def)
  have "invariant ?s2" "isRunning ?s2"
    using assms(1) True by (simp_all add: invariant_def)
  from stepLoop_invariant [OF l this] obtain s3 where r: "r = Inr s3" and i3: "invariant s3"
    by blast
  from assms(2) True l r have "s' = decay (timestamp - lastTime s) s3"
    by (simp add: gameLoop_def Let_def)
  with i3 show ?thesis by (simp add: decay_invariant)
qed

lemma switchKey_invariant: "invariant s \<Longrightarrow> invariant (switchKey key s)"
  by (simp add: switchKey_def invariant_def unitDirection_def)

lemma keydown_invariant:
  assumes "invariant s" "keydown now key s = Some s'"
  shows "invariant s'"
proof (cases "\<not> isRunning s \<and> \<not> isGameOver s \<and> startsGame key")
  case True
  with assms(2) obtain s1 where i: "initGame now s = Some s1" and s': "s' = switchKey key s1"
    by (auto simp: keydown_def split: option.splits)
  from assms(1) have "randomValues (rng s)" by (simp add: invariant_def)
  from initGame_invariant [OF i this] show ?thesis
    unfolding s' by (simp add: switchKey_invariant)
next
  case False
  with assms(2) have "s' = switchKey key s"
    by (auto simp: keydown_def)
  with assms(1) show ?thesis by (simp add: switchKey_invariant)
qed

lemma touchend_invariant:
  assumes "invariant s" "touchend now cx cy s = Some s'"
  shows "invariant s'"
proof (cases "touchStartX s")
  case None
  with assms show ?thesis by (simp add: touchend_def)
next
  case sx: (Some tx)
  show ?thesis
  proof (cases "touchStartY s")
    case None
    with assms sx show ?thesis by (simp add: touchend_def)
  next
    case sy: (Some ty)
    have "\<exists>s1. (if \<not> isRunning s \<and> \<not> isGameOver s then initGame now s else Some s) = Some s1
             \<and> invariant s1 \<and> (\<exists>d. unitDirection d \<and> s' = s1\<lparr>nextDirection := d, touchStartX := None, touchStartY := None\<rparr>
                   \<or> s' = s1\<lparr>touchStartX := None, touchStartY := None\<rparr>)"
    proof (cases "\<not> isRunning s \<and> \<not> isGameOver s")
      case True
      with assms(2) sx sy obtain s1 where i: "initGame now s = Some s1"
        by (auto simp: touchend_def split: option.splits)
      from assms(1) have "randomValues (rng s)" by (simp add: invariant_def)
      from initGame_invariant [OF i this] have "invariant s1" by simp
      with assms(2) sx sy True i show ?thesis
        by (auto simp: touchend_def Let_def unitDirection_def split: if_splits)
    next
      case False
      with assms sx sy show ?thesis
        by (auto simp: touchend_def Let_def unitDirection_def split: if_splits)
    qed
    then show ?thesis
      by (auto simp: invariant_def)
  qed
qed

lemma loaded_invariant: "randomValues g \<Longrightarrow> invariant (loaded w h g)"
  by (simp add: loaded_def resizeCanvas_def invariant_def unitDirection_def Let_def)

lemma dispatch_invariant:
  assumes "invariant s" "dispatch e s = Some (Inr s')"
  shows "invariant s'"
proof (cases e)
  case (Keydown now key)
  with assms show ?thesis by (auto simp: dispatch_def dest: keydown_invariant)
next
  case (Touchstart cx cy)
  with assms show ?thesis by (auto simp: dispatch_def touchstart_def invariant_def)
next
  case (Touchend now cx cy)
  with assms show ?thesis by (auto simp: dispatch_def dest: touchend_invariant)
next
  case (RestartClick now)
  with assms show ?thesis
    by (auto simp: dispatch_def invariant_def [of s] dest: initGame_invariant)
next
  case (AnimationFrame timestamp)
  with assms(2) obtain i where "gameLoop timestamp s = Some (Inr (s', i))"
    by (cases "gameLoop timestamp s") (auto simp: dispatch_def map_sum_def split: sum.splits)
  with assms(1) show ?thesis by (rule gameLoop_invariant)
next
  case (Resize w h)
  with assms show ?thesis by (auto simp: dispatch_def resizeCanvas_def invariant_def Let_def)
qed

lemma reachable_invariant: "reachable s \<Longrightarrow> invariant s"
  by (induction rule: reachable.induct) (auto intro: loaded_invariant dispatch_invariant)

text \<open>No callback throws in a state the page reaches, so the reachable states are all
  the states there are.\<close>

lemma gameLoop_no_throw:
  assumes "invariant s"
  shows "gameLoop timestamp s \<noteq> Some (Inl err)"
proof (cases "isRunning s")
  case False
  then show ?thesis by (simp add: gameLoop_def)
next
  case True
  let ?s2 = "s\<lparr>lastTime := timestamp, accumulator := accumulator s + (timestamp - lastTime s)\<rparr>"
  have i: "invariant ?s2" "isRunning ?s2"
    using assms True by (simp_all add: invariant_def)
  show ?thesis
  proof (cases "stepLoop ?s2")
    case None
    with True show ?thesis by (simp add: gameLoop_def Let_def)
  next
    case (Some r)
    from stepLoop_invariant [OF Some i] obtain s3 where "r = Inr s3" by blast
    with Some True show ?thesis by (simp add: gameLoop_def Let_def)
  qed
qed

lemma reachable_no_throw: "reachable s \<Longrightarrow> dispatch e s \<noteq> Some (Inl err)"
proof -
  assume "reachable s"
  then have i: "invariant s" by (rule reachable_invariant)
  show ?thesis
  proof (cases e)
    case (AnimationFrame timestamp)
    from gameLoop_no_throw [OF i, of timestamp err] show ?thesis
      unfolding AnimationFrame dispatch_def
      by (cases "gameLoop timestamp s") (auto simp: map_sum_def split: sum.splits)
  qed (auto simp: dispatch_def)
qed

text \<open>In every state in which \<^verbatim>\<open>step()\<close> is called the game is running, the snake has a
  head, and the food is on the board and on no segment.\<close>

lemma atLoopHead_invariant: "atLoopHead s \<Longrightarrow> invariant s \<and> isRunning s"
proof (induction rule: atLoopHead.induct)
  case (enter s timestamp)
  from reachable_invariant [OF enter(1)] enter(2) show ?case
    by (simp add: invariant_def frameStart_def)
next
  case (again s s')
  let ?s = "s\<lparr>accumulator := accumulator s - moveInterval\<rparr>"
  from again.IH have i: "invariant ?s" and r: "isRunning ?s"
    by (simp_all add: invariant_def)
  from again.hyps(3) have st: "step ?s = Some (Inr s')"
    by (simp add: tick_def)
  from step_invariant [OF i r st] again.hyps(4) show ?case by simp
qed

lemma stepCalled_invariant: "stepCalled s \<Longrightarrow> invariant s \<and> isRunning s"
proof (induction rule: stepCalled.induct)
  case (called s)
  from atLoopHead_invariant [OF called(1)] show ?case
    by (simp add: invariant_def)
qed

lemma stepCalled_game_state:
  assumes "stepCalled s"
  shows "snake s \<noteq> [] \<and> (\<exists>f. food s = Some f \<and> f \<notin> set (snake s) \<and> \<not> outside f)"
  using stepCalled_invariant [OF assms] unfolding invariant_def by auto

lemma step_eats:
  assumes "snake s \<noteq> []" "food s = Some (nextHead s)"
    "\<not> outside (nextHead s)" "nextHead s \<notin> set (snake s)"
  shows "step s = map_option Inr (placeFood (ate s))"
  using assms by (simp add: step_eq ate_def)

lemma step_moves:
  assumes "snake s \<noteq> []" "food s = Some f" "f \<noteq> nextHead s"
    "\<not> outside (nextHead s)" "nextHead s \<notin> set (snake s)"
  shows "step s = Some (Inr (moved s))"
  using assms by (auto simp: step_eq moved_def)

section \<open>Concrete runs\<close>

lemma skip_zeros: "skip m zeros = zeros"
  by (simp add: skip_def zeros_def)

lemma isDouble_examples:
  "isDouble 0" "isDouble (1 / 4)" "isDouble (5 / 16)" "isDouble (1 / 2)"
proof -
  have "(0 :: nat) < 2 ^ 53 \<and> (0 :: nat) \<le> 1074 \<and> (0 :: rat) = of_nat 0 / 2 ^ 0" by simp
  then show "isDouble 0" unfolding isDouble_def by blast
  have "(1 :: nat) < 2 ^ 53 \<and> (2 :: nat) \<le> 1074 \<and> (1 / 4 :: rat) = of_nat 1 / 2 ^ 2" by simp
  then show "isDouble (1 / 4)" unfolding isDouble_def by blast
  have "(5 :: nat) < 2 ^ 53 \<and> (4 :: nat) \<le> 1074 \<and> (5 / 16 :: rat) = of_nat 5 / 2 ^ 4" by simp
  then show "isDouble (5 / 16)" unfolding isDouble_def by blast
  have "(1 :: nat) < 2 ^ 53 \<and> (1 :: nat) \<le> 1074 \<and> (1 / 2 :: rat) = of_nat 1 / 2 ^ 1" by simp
  then show "isDouble (1 / 2)" unfolding isDouble_def by blast
qed

lemma randomValues_zeros: "randomValues zeros"
  by (simp add: randomValues_def zeros_def isDouble_examples)

lemma randomValues_ahead: "randomValues ahead"
  by (simp add: randomValues_def ahead_def isDouble_examples)


lemma skip_ahead: "skip 2 ahead = zeros"
  by (simp add: skip_def ahead_def zeros_def)

lemma floorProduct_zero: "floorProduct 0 13 = 0"
  by (simp add: floorProduct_def)


lemma floorProduct_five_sixteenths: "floorProduct (5 / 16) 13 = 4"
proof -
  have "roundEven (4573968371548160) = 4573968371548160"
    by (simp add: roundEven_def Let_def)
  then show ?thesis
    by (simp add: floorProduct_def nearestDouble_def ulp_def floor_eq_iff)
qed

lemma floorProduct_half: "floorProduct (1 / 2) 13 = 6"
proof -
  have "roundEven (7318349394477056) = 7318349394477056"
    by (simp add: roundEven_def Let_def)
  then show ?thesis
    by (simp add: floorProduct_def nearestDouble_def ulp_def floor_eq_iff)
qed

lemma drawn_zeros: "drawn zeros n = \<lparr>x = 0, y = 0\<rparr>"
  by (simp add: drawn_def zeros_def tileCount_def floorProduct_zero)

lemma drawn_ahead: "drawn ahead 0 = \<lparr>x = 4, y = 6\<rparr>"
  by (simp add: drawn_def ahead_def tileCount_def floorProduct_five_sixteenths floorProduct_half)


lemma initGame_zeros: "initGame 0 (loaded 300 300 zeros) = Some started"
  by (simp add: initGame_def Let_def tileCount_def placeFood_unfold drawn_zeros skip_zeros
      loaded_def resizeCanvas_def started_def)

lemma initGame_ahead: "initGame 0 (loaded 300 300 ahead) = Some startedAhead"
  by (simp add: initGame_def Let_def tileCount_def placeFood_unfold drawn_ahead skip_ahead
      loaded_def resizeCanvas_def started_def startedAhead_def)


lemma reachable_started: "reachable started"
proof -
  have "reachable (loaded 300 300 zeros)"
    by (rule reachable.loaded) (rule randomValues_zeros)
  moreover have "dispatch (RestartClick 0) (loaded 300 300 zeros) = Some (Inr started)"
    by (simp add: dispatch_def initGame_zeros)
  ultimately show ?thesis by (rule reachable.event)
qed

lemma reachable_startedAhead: "reachable startedAhead"
proof -
  have "reachable (loaded 300 300 ahead)"
    by (rule reachable.loaded) (rule randomValues_ahead)
  moreover have "dispatch (RestartClick 0) (loaded 300 300 ahead) = Some (Inr startedAhead)"
    by (simp add: dispatch_def initGame_ahead)
  ultimately show ?thesis by (rule reachable.event)
qed

section \<open>The snake never overlaps itself\<close>

text \<open>
  C1. In every state the page can reach in which the game is running, the cells of the
  snake are pairwise distinct.
\<close>

theorem running_snake_distinct:
  "reachable s \<Longrightarrow> isRunning s \<Longrightarrow> distinct (snake s)"
  by (drule reachable_invariant) (simp add: invariant_def)

theorem running_snake_distinct_witness:
  "reachable started \<and> isRunning started \<and> distinct (snake started)"
proof -
  have r: "isRunning started" by (simp add: started_def)
  from running_snake_distinct [OF reachable_started r] reachable_started r
  show ?thesis by simp
qed

section \<open>Eating and moving\<close>

lemma stepCalled_eatingStep: "stepCalled eatingStep"
proof -
  have r: "isRunning startedAhead" by (simp add: startedAhead_def started_def)
  have h: "atLoopHead (frameStart 200 startedAhead)"
    using reachable_startedAhead r by (rule atLoopHead.enter)
  have d: "moveInterval \<le> accumulator (frameStart 200 startedAhead)"
    by (simp add: frameStart_def startedAhead_def started_def moveInterval_200)
  have e: "(frameStart 200 startedAhead)
             \<lparr>accumulator := accumulator (frameStart 200 startedAhead) - moveInterval\<rparr> = eatingStep"
    by (simp add: frameStart_def eatingStep_def startedAhead_def started_def moveInterval_200)
  from stepCalled.called [OF h d] show ?thesis unfolding e .
qed

lemma stepCalled_secondStep: "stepCalled secondStep"
proof -
  let ?s1 = "secondStep\<lparr>accumulator := 200\<rparr>"
  have r: "isRunning started" by (simp add: started_def)
  have h: "atLoopHead (frameStart 400 started)"
    using reachable_started r by (rule atLoopHead.enter)
  have d: "moveInterval \<le> accumulator (frameStart 400 started)"
    by (simp add: frameStart_def started_def moveInterval_200)
  have t: "tick (frameStart 400 started) = Some (Inr ?s1)"
    by (simp add: frameStart_def started_def secondStep_def tick_def step_eq nextHead_def
        outside_def tileCount_def turned_def moveInterval_200)
  have r1: "isRunning ?s1" by (simp add: secondStep_def started_def)
  have h1: "atLoopHead ?s1"
    using h d t r1 by (rule atLoopHead.again)
  have d1: "moveInterval \<le> accumulator ?s1"
    by (simp add: moveInterval_200)
  have e: "?s1\<lparr>accumulator := accumulator ?s1 - moveInterval\<rparr> = secondStep"
    by (simp add: secondStep_def started_def moveInterval_200)
  from stepCalled.called [OF h1 d1] show ?thesis unfolding e .
qed

text \<open>
  C2. Take any state in which \<^verbatim>\<open>step()\<close> is called, in any frame and at any place in the
  frame. If the new head is the food cell, the step puts the new head in front without
  removing the tail, adds one to the score, sets the bite timer to 200 and then calls
  \<^verbatim>\<open>placeFood()\<close>: the score is one more and the snake one longer when \<^verbatim>\<open>placeFood()\<close> is
  entered, and \<^verbatim>\<open>placeFood()\<close> leaves them so when it returns. If the new head is not the
  food cell and the step does not collide, the step returns with the new head in front
  and the tail removed: the score and the length are as they were.
\<close>

theorem eating_adds_one_moving_adds_none:
  assumes "stepCalled s"
  shows "(food s = Some (nextHead s) \<longrightarrow>
            step s = map_option Inr (placeFood (ate s)) \<and>
            score (ate s) = score s + 1 \<and>
            length (snake (ate s)) = length (snake s) + 1 \<and>
            snake (ate s) = nextHead s # snake s \<and>
            eatAnimMs (ate s) = 200 \<and>
            (\<forall>s'. placeFood (ate s) = Some s' \<longrightarrow>
               score s' = score s + 1 \<and> length (snake s') = length (snake s) + 1 \<and>
               snake s' = nextHead s # snake s \<and> eatAnimMs s' = 200)) \<and>
         (food s \<noteq> Some (nextHead s) \<longrightarrow> \<not> outside (nextHead s) \<longrightarrow>
            nextHead s \<notin> set (snake s) \<longrightarrow>
            step s = Some (Inr (moved s)) \<and>
            score (moved s) = score s \<and>
            length (snake (moved s)) = length (snake s) \<and>
            snake (moved s) = nextHead s # butlast (snake s))"
proof -
  from stepCalled_game_state [OF assms] obtain f where ne: "snake s \<noteq> []"
    and f: "food s = Some f" and fs: "f \<notin> set (snake s)" and fin: "\<not> outside f"
    by blast
  have eat: "step s = map_option Inr (placeFood (ate s))" if "food s = Some (nextHead s)"
    using that f fs fin ne by (intro step_eats) simp_all
  have fields: "score (ate s) = score s + 1" "length (snake (ate s)) = length (snake s) + 1"
    "snake (ate s) = nextHead s # snake s" "eatAnimMs (ate s) = 200"
    by (simp_all add: ate_def turned_def)
  have kept: "score s' = score s + 1 \<and> length (snake s') = length (snake s) + 1 \<and>
       snake s' = nextHead s # snake s \<and> eatAnimMs s' = 200"
    if "placeFood (ate s) = Some s'" for s'
    using placeFood_fields(1,2,8) [OF that] fields by simp
  have move: "step s = Some (Inr (moved s))"
    if "food s \<noteq> Some (nextHead s)" "\<not> outside (nextHead s)" "nextHead s \<notin> set (snake s)"
    using that f ne by (intro step_moves [of s f]) auto
  have mfields: "score (moved s) = score s" "length (snake (moved s)) = length (snake s)"
    "snake (moved s) = nextHead s # butlast (snake s)"
    using ne by (simp_all add: moved_def turned_def)
  from eat fields kept move mfields show ?thesis by blast
qed

theorem eating_adds_one_moving_adds_none_witness:
  "stepCalled eatingStep \<and> food eatingStep = Some (nextHead eatingStep) \<and>
   score eatingStep = 0 \<and> length (snake eatingStep) = 3 \<and>
   step eatingStep = map_option Inr (placeFood (ate eatingStep)) \<and>
   score (ate eatingStep) = 1 \<and> length (snake (ate eatingStep)) = 4 \<and>
   snake (ate eatingStep) = [\<lparr>x = 4, y = 6\<rparr>, \<lparr>x = 3, y = 6\<rparr>, \<lparr>x = 2, y = 6\<rparr>, \<lparr>x = 1, y = 6\<rparr>] \<and>
   eatAnimMs (ate eatingStep) = 200 \<and>
   placeFood (ate eatingStep) = Some ((ate eatingStep)\<lparr>food := Some \<lparr>x = 0, y = 0\<rparr>\<rparr>) \<and>
   score ((ate eatingStep)\<lparr>food := Some \<lparr>x = 0, y = 0\<rparr>\<rparr>) = 1 \<and>
   length (snake ((ate eatingStep)\<lparr>food := Some \<lparr>x = 0, y = 0\<rparr>\<rparr>)) = 4 \<and>
   stepCalled secondStep \<and> food secondStep \<noteq> Some (nextHead secondStep) \<and>
   \<not> outside (nextHead secondStep) \<and> nextHead secondStep \<notin> set (snake secondStep) \<and>
   score secondStep = 0 \<and> length (snake secondStep) = 3 \<and>
   step secondStep = Some (Inr (moved secondStep)) \<and>
   score (moved secondStep) = 0 \<and> length (snake (moved secondStep)) = 3 \<and>
   snake (moved secondStep) = [\<lparr>x = 5, y = 6\<rparr>, \<lparr>x = 4, y = 6\<rparr>, \<lparr>x = 3, y = 6\<rparr>]"
proof -
  have a: "food eatingStep = Some (nextHead eatingStep)" "score eatingStep = 0"
    "length (snake eatingStep) = 3"
    "nextHead eatingStep # snake eatingStep =
       [\<lparr>x = 4, y = 6\<rparr>, \<lparr>x = 3, y = 6\<rparr>, \<lparr>x = 2, y = 6\<rparr>, \<lparr>x = 1, y = 6\<rparr>]"
    by (simp_all add: eatingStep_def startedAhead_def started_def nextHead_def)
  have p: "placeFood (ate eatingStep) = Some ((ate eatingStep)\<lparr>food := Some \<lparr>x = 0, y = 0\<rparr>\<rparr>)"
    by (subst placeFood_unfold)
      (simp add: ate_def turned_def eatingStep_def startedAhead_def started_def nextHead_def
        drawn_zeros skip_zeros)
  have b: "food secondStep \<noteq> Some (nextHead secondStep)" "\<not> outside (nextHead secondStep)"
    "nextHead secondStep \<notin> set (snake secondStep)" "score secondStep = 0"
    "length (snake secondStep) = 3"
    "nextHead secondStep # butlast (snake secondStep) =
       [\<lparr>x = 5, y = 6\<rparr>, \<lparr>x = 4, y = 6\<rparr>, \<lparr>x = 3, y = 6\<rparr>]"
    by (simp_all add: secondStep_def started_def nextHead_def outside_def tileCount_def)
  note e = eating_adds_one_moving_adds_none [OF stepCalled_eatingStep]
  note m = eating_adds_one_moving_adds_none [OF stepCalled_secondStep]
  from e a(1) have e1: "step eatingStep = map_option Inr (placeFood (ate eatingStep))"
    "score (ate eatingStep) = score eatingStep + 1"
    "length (snake (ate eatingStep)) = length (snake eatingStep) + 1"
    "snake (ate eatingStep) = nextHead eatingStep # snake eatingStep"
    "eatAnimMs (ate eatingStep) = 200"
    by blast+
  from e a(1) p have e2: "score ((ate eatingStep)\<lparr>food := Some \<lparr>x = 0, y = 0\<rparr>\<rparr>) = score eatingStep + 1"
    "length (snake ((ate eatingStep)\<lparr>food := Some \<lparr>x = 0, y = 0\<rparr>\<rparr>)) = length (snake eatingStep) + 1"
    by blast+
  from m b(1,2,3) have m1: "step secondStep = Some (Inr (moved secondStep))"
    "score (moved secondStep) = score secondStep"
    "length (snake (moved secondStep)) = length (snake secondStep)"
    "snake (moved secondStep) = nextHead secondStep # butlast (snake secondStep)"
    by blast+
  from stepCalled_eatingStep stepCalled_secondStep a b p e1 e2 m1 show ?thesis
    by simp
qed

section \<open>Termination of food placement\<close>




section \<open>The loop of a frame\<close>

lemma step_accumulator: "step s = Some (Inr s') \<Longrightarrow> accumulator s' = accumulator s"
proof (cases "snake s = []")
  case True
  then show "step s = Some (Inr s') \<Longrightarrow> ?thesis" by (simp add: step_def storePrevious_eq)
next
  case False
  assume st: "step s = Some (Inr s')"
  show ?thesis
  proof (cases "outside (nextHead s) \<or> nextHead s \<in> set (snake s)")
    case True
    with False st show ?thesis by (auto simp: step_eq gameOver_def turned_def)
  next
    case nc: False
    show ?thesis
    proof (cases "food s")
      case None
      with False nc st show ?thesis by (simp add: step_eq)
    next
      case (Some f)
      show ?thesis
      proof (cases "nextHead s = f")
        case True
        with False nc st Some obtain p where
          "placeFood ((turned s)\<lparr>snake := nextHead s # snake s, score := score s + 1,
             eatAnimMs := 200\<rparr>) = Some p" "s' = p"
          by (auto simp: step_eq)
        from placeFood_fields(5) [OF this(1)] this(2) show ?thesis by (simp add: turned_def)
      next
        case neq: False
        with False nc st Some show ?thesis by (auto simp: step_eq turned_def)
      qed
    qed
  qed
qed

lemma tick_accumulator: "tick s = Some (Inr s') \<Longrightarrow> accumulator s' = accumulator s - moveInterval"
  unfolding tick_def by (drule step_accumulator) simp

lemma steps_accumulator:
  "steps k s = Some (Inr t) \<Longrightarrow> accumulator t = accumulator s - of_nat k * moveInterval"
proof (induction k arbitrary: s)
  case 0
  then show ?case by simp
next
  case (Suc k)
  from Suc.prems obtain s' where t: "tick s = Some (Inr s')" and r: "steps k s' = Some (Inr t)"
    by (auto split: option.splits sum.splits)
  from Suc.IH [OF r] tick_accumulator [OF t] show ?case
    by (simp add: algebra_simps)
qed

lemma stepLoop_unfold:
  "stepLoop s =
     (if accumulator s \<ge> moveInterval
      then (case tick s of
              None \<Rightarrow> None
            | Some (Inl e) \<Rightarrow> Some (Inl e)
            | Some (Inr s') \<Rightarrow> if \<not> isRunning s' then Some (Inr s') else stepLoop s')
      else Some (Inr s))"
  by (subst stepLoop.simps) (simp add: tick_def)

lemma stepLoop_steps:
  "staysRunning k s \<Longrightarrow> of_nat k * moveInterval \<le> accumulator s \<Longrightarrow>
   stepLoop s =
     (case steps k s of
        None \<Rightarrow> None
      | Some (Inl e) \<Rightarrow> Some (Inl e)
      | Some (Inr t) \<Rightarrow> if 0 < k \<and> \<not> isRunning t then Some (Inr t) else stepLoop t)"
proof (induction k arbitrary: s)
  case 0
  show ?case by simp
next
  case (Suc k)
  have mi: "0 \<le> of_nat k * moveInterval"
    by (simp add: moveInterval_200)
  from Suc.prems(2) mi have due: "moveInterval \<le> accumulator s"
    by (simp add: algebra_simps)
  show ?case
  proof (cases "tick s")
    case None
    with due show ?thesis by (subst stepLoop_unfold) simp
  next
    case (Some r)
    show ?thesis
    proof (cases r)
      case (Inl e)
      with Some due show ?thesis by (subst stepLoop_unfold) simp
    next
      case (Inr s')
      with Some Suc.prems(1) have sr: "staysRunning k s'" by simp
      from tick_accumulator Some Inr have "accumulator s' = accumulator s - moveInterval"
        by simp
      with Suc.prems(2) have le: "of_nat k * moveInterval \<le> accumulator s'"
        by (simp add: algebra_simps)
      note IH = Suc.IH [OF sr le]
      show ?thesis
      proof (cases k)
        case 0
        with Some Inr due show ?thesis by (subst stepLoop_unfold) simp
      next
        case (Suc j)
        with sr have "isRunning s'" by simp
        with Some Inr due have "stepLoop s = stepLoop s'"
          by (subst stepLoop_unfold) simp
        with IH Some Inr Suc show ?thesis by (simp split: option.split sum.split)
      qed
    qed
  qed
qed

text \<open>
  C4. Starting with an empty accumulator, a frame whose elapsed time is exactly \<open>k\<close> step
  intervals runs exactly \<open>k\<close> steps, as long as the game is running before each of them,
  and hands the fraction 0 to the renderer.
\<close>

theorem frame_of_k_intervals_runs_k_steps:
  assumes "isRunning s" and "accumulator s = 0"
    and "timestamp - lastTime s = of_nat k * moveInterval"
    and "staysRunning k (frameStart timestamp s)"
  shows "gameLoop timestamp s =
     (case steps k (frameStart timestamp s) of
        None \<Rightarrow> None
      | Some (Inl e) \<Rightarrow> Some (Inl e)
      | Some (Inr t) \<Rightarrow> Some (Inr (decay (of_nat k * moveInterval) t, Some 0)))"
proof -
  let ?s2 = "frameStart timestamp s"
  have acc: "accumulator ?s2 = of_nat k * moveInterval"
    using assms(2,3) by (simp add: frameStart_def)
  then have le: "of_nat k * moveInterval \<le> accumulator ?s2" by simp
  note loop = stepLoop_steps [OF assms(4) le]
  have g: "gameLoop timestamp s =
     (case stepLoop ?s2 of
        None \<Rightarrow> None
      | Some (Inl e) \<Rightarrow> Some (Inl e)
      | Some (Inr s3) \<Rightarrow>
          Some (Inr (decay (of_nat k * moveInterval) s3,
                     Some (min 1 (accumulator (decay (of_nat k * moveInterval) s3) / moveInterval)))))"
    using assms(1,3) by (simp add: gameLoop_def frameStart_def Let_def split: option.split sum.split)
  show ?thesis
  proof (cases "steps k ?s2")
    case None
    with loop g show ?thesis by simp
  next
    case (Some r)
    show ?thesis
    proof (cases r)
      case (Inl e)
      with Some loop g show ?thesis by simp
    next
      case (Inr t)
      from steps_accumulator Some Inr acc have z: "accumulator t = 0"
        by simp
      then have "stepLoop t = Some (Inr t)"
        by (subst stepLoop_unfold) (simp add: moveInterval_200)
      with loop Some Inr have "stepLoop ?s2 = Some (Inr t)"
        by simp
      moreover have "accumulator (decay (of_nat k * moveInterval) t) = 0"
        using z by (simp add: decay_def Let_def)
      ultimately show ?thesis
        using g Some Inr by simp
    qed
  qed
qed


theorem frame_of_k_intervals_runs_k_steps_witness:
  "isRunning started \<and> accumulator started = 0 \<and>
   600 - lastTime started = of_nat 3 * moveInterval \<and>
   staysRunning 3 (frameStart 600 started) \<and>
   gameLoop 600 started =
     Some (Inr (started\<lparr>lastTime := 600,
                        snake := [\<lparr>x = 6, y = 6\<rparr>, \<lparr>x = 5, y = 6\<rparr>, \<lparr>x = 4, y = 6\<rparr>],
                        previousSnake := Some [\<lparr>x = 5, y = 6\<rparr>, \<lparr>x = 4, y = 6\<rparr>, \<lparr>x = 3, y = 6\<rparr>]\<rparr>,
                Some 0))"
proof -
  have a: "isRunning started" "accumulator started = 0"
    by (simp_all add: started_def)
  have b: "600 - lastTime started = of_nat 3 * moveInterval"
    by (simp add: started_def moveInterval_200)
  have c: "staysRunning 3 (frameStart 600 started)"
    by (simp add: eval_nat_numeral frameStart_def started_def tick_def step_eq nextHead_def
        outside_def tileCount_def turned_def moveInterval_200)
  have d: "steps 3 (frameStart 600 started) =
     Some (Inr (started\<lparr>lastTime := 600,
                        snake := [\<lparr>x = 6, y = 6\<rparr>, \<lparr>x = 5, y = 6\<rparr>, \<lparr>x = 4, y = 6\<rparr>],
                        previousSnake := Some [\<lparr>x = 5, y = 6\<rparr>, \<lparr>x = 4, y = 6\<rparr>, \<lparr>x = 3, y = 6\<rparr>]\<rparr>))"
    by (simp add: eval_nat_numeral frameStart_def started_def tick_def step_eq nextHead_def
        outside_def tileCount_def turned_def moveInterval_200)
  have e: "decay (of_nat 3 * moveInterval)
             (started\<lparr>lastTime := 600,
                      snake := [\<lparr>x = 6, y = 6\<rparr>, \<lparr>x = 5, y = 6\<rparr>, \<lparr>x = 4, y = 6\<rparr>],
                      previousSnake := Some [\<lparr>x = 5, y = 6\<rparr>, \<lparr>x = 4, y = 6\<rparr>, \<lparr>x = 3, y = 6\<rparr>]\<rparr>) =
           started\<lparr>lastTime := 600,
                   snake := [\<lparr>x = 6, y = 6\<rparr>, \<lparr>x = 5, y = 6\<rparr>, \<lparr>x = 4, y = 6\<rparr>],
                   previousSnake := Some [\<lparr>x = 5, y = 6\<rparr>, \<lparr>x = 4, y = 6\<rparr>, \<lparr>x = 3, y = 6\<rparr>]\<rparr>"
    by (simp add: decay_def started_def)
  from frame_of_k_intervals_runs_k_steps [OF a b c] a b c show ?thesis
    by (simp only: d e option.case sum.case simp_thms)
qed

text \<open>
  C5. When the \<open>k\<close>-th step of a frame ends the game, the loop of \<^verbatim>\<open>gameLoop\<close> stops there:
  the frame ends in the state that this step has left, however many more intervals the
  accumulator still holds.
\<close>

theorem game_over_stops_the_steps_of_the_frame:
  assumes "isRunning s" and "staysRunning k (frameStart timestamp s)"
    and "steps k (frameStart timestamp s) = Some (Inr t)"
    and "0 < k" and "\<not> isRunning t"
    and "of_nat k * moveInterval \<le> accumulator (frameStart timestamp s)"
  shows "stepLoop (frameStart timestamp s) = Some (Inr t) \<and>
         accumulator t = accumulator (frameStart timestamp s) - of_nat k * moveInterval \<and>
         gameLoop timestamp s =
           Some (Inr (decay (timestamp - lastTime s) t, Some (min 1 (accumulator t / moveInterval))))"
proof -
  from stepLoop_steps [OF assms(2,6)] assms(3,4,5)
  have l: "stepLoop (frameStart timestamp s) = Some (Inr t)" by simp
  have "accumulator (decay (timestamp - lastTime s) t) = accumulator t"
    by (simp add: decay_def Let_def)
  with l assms(1) have "gameLoop timestamp s =
      Some (Inr (decay (timestamp - lastTime s) t, Some (min 1 (accumulator t / moveInterval))))"
    by (simp add: gameLoop_def frameStart_def Let_def)
  with l steps_accumulator [OF assms(3)] show ?thesis by simp
qed

theorem game_over_stops_the_steps_of_the_frame_witness:
  "isRunning atWall \<and> staysRunning 1 (frameStart 600 atWall) \<and>
   steps 1 (frameStart 600 atWall) =
     Some (Inr (gameOver (turned (atWall\<lparr>lastTime := 600, accumulator := 400\<rparr>)))) \<and>
   \<not> isRunning (gameOver (turned (atWall\<lparr>lastTime := 600, accumulator := 400\<rparr>))) \<and>
   of_nat 1 * moveInterval \<le> accumulator (frameStart 600 atWall) \<and>
   stepLoop (frameStart 600 atWall) =
     Some (Inr (gameOver (turned (atWall\<lparr>lastTime := 600, accumulator := 400\<rparr>)))) \<and>
   accumulator (gameOver (turned (atWall\<lparr>lastTime := 600, accumulator := 400\<rparr>))) = 400 \<and>
   2 * moveInterval \<le> accumulator (gameOver (turned (atWall\<lparr>lastTime := 600, accumulator := 400\<rparr>))) \<and>
   gameLoop 600 atWall =
     Some (Inr (gameOver (turned (atWall\<lparr>lastTime := 600, accumulator := 400\<rparr>)), Some 1))"
proof -
  let ?t = "gameOver (turned (atWall\<lparr>lastTime := 600, accumulator := 400\<rparr>))"
  have a: "isRunning atWall"
    by (simp add: atWall_def started_def)
  have t: "tick (frameStart 600 atWall) = Some (Inr ?t)"
    by (simp add: frameStart_def atWall_def started_def tick_def step_eq nextHead_def
        outside_def tileCount_def turned_def moveInterval_200)
  have b: "staysRunning 1 (frameStart 600 atWall)"
    using t by (simp add: frameStart_def atWall_def started_def)
  have c: "steps 1 (frameStart 600 atWall) = Some (Inr ?t)"
    using t by simp
  have d: "\<not> isRunning ?t"
    by (simp add: gameOver_def)
  have e: "of_nat 1 * moveInterval \<le> accumulator (frameStart 600 atWall)"
    by (simp add: frameStart_def atWall_def started_def moveInterval_200)
  have f: "accumulator ?t = 400" "decay (600 - lastTime atWall) ?t = ?t"
    by (simp_all add: gameOver_def turned_def decay_def atWall_def started_def)
  from game_over_stops_the_steps_of_the_frame [OF a b c _ d e] a b c d e f show ?thesis
    by (simp add: moveInterval_200)
qed

section \<open>Interpolated drawing\<close>

text \<open>
  C9. The center drawn for the segment at index \<open>i\<close> is the linear interpolation, at the
  fraction handed to the renderer, between the center of the cell the previous snapshot
  has at \<open>i\<close> and the center of the cell the snake has there now; in grid coordinates it
  is the interpolation of the two cells, moved by half a tile and scaled by the tile size,
  which is the expression the source evaluates. Where the previous snapshot has no entry
  at \<open>i\<close>, the previous cell is taken to be the current one and the segment is drawn at
  the center of its cell, whatever the fraction.
\<close>

theorem centers_interpolate:
  assumes "i < length (snake s)"
  shows "centers t s ! i =
           (lerp (fst (cellCenter (tileSize s) (previousAt s i)))
                 (fst (cellCenter (tileSize s) (snake s ! i))) t,
            lerp (snd (cellCenter (tileSize s) (previousAt s i)))
                 (snd (cellCenter (tileSize s) (snake s ! i))) t) \<and>
         centers t s ! i =
           ((lerp (of_int (x (previousAt s i))) (of_int (x (snake s ! i))) t + 1 / 2) * tileSize s,
            (lerp (of_int (y (previousAt s i))) (of_int (y (snake s ! i))) t + 1 / 2) * tileSize s) \<and>
         (\<not> hasPrevious s i \<longrightarrow>
            previousAt s i = snake s ! i \<and>
            centers t s ! i = cellCenter (tileSize s) (snake s ! i))"
proof -
  have c: "centers t s ! i =
      ((of_int (x (previousAt s i)) + of_int (x (snake s ! i) - x (previousAt s i)) * t + 1 / 2)
         * tileSize s,
       (of_int (y (previousAt s i)) + of_int (y (snake s ! i) - y (previousAt s i)) * t + 1 / 2)
         * tileSize s)"
    using assms by (simp add: centers_def previousAt_def Let_def split: option.split)
  have l: "centers t s ! i =
           (lerp (fst (cellCenter (tileSize s) (previousAt s i)))
                 (fst (cellCenter (tileSize s) (snake s ! i))) t,
            lerp (snd (cellCenter (tileSize s) (previousAt s i)))
                 (snd (cellCenter (tileSize s) (snake s ! i))) t)"
    unfolding c by (simp add: lerp_def cellCenter_def algebra_simps)
  have g: "centers t s ! i =
           ((lerp (of_int (x (previousAt s i))) (of_int (x (snake s ! i))) t + 1 / 2) * tileSize s,
            (lerp (of_int (y (previousAt s i))) (of_int (y (snake s ! i))) t + 1 / 2) * tileSize s)"
    unfolding c by (simp add: lerp_def)
  have p: "previousAt s i = snake s ! i" if "\<not> hasPrevious s i"
    using that by (simp add: hasPrevious_def previousAt_def split: option.splits)
  have "centers t s ! i = cellCenter (tileSize s) (snake s ! i)" if "\<not> hasPrevious s i"
    unfolding l p [OF that] by (simp add: lerp_def)
  with l g p show ?thesis
    by blast
qed

theorem centers_interpolate_witness:
  "(0 :: nat) < length (snake grown) \<and>
   centers (1 / 2) grown ! 0 =
     (lerp (fst (cellCenter (tileSize grown) \<lparr>x = 3, y = 6\<rparr>))
           (fst (cellCenter (tileSize grown) \<lparr>x = 4, y = 6\<rparr>)) (1 / 2),
      lerp (snd (cellCenter (tileSize grown) \<lparr>x = 3, y = 6\<rparr>))
           (snd (cellCenter (tileSize grown) \<lparr>x = 4, y = 6\<rparr>)) (1 / 2)) \<and>
   (3 :: nat) < length (snake grown) \<and> \<not> hasPrevious grown 3 \<and>
   centers (1 / 2) grown ! 3 = cellCenter (tileSize grown) \<lparr>x = 1, y = 6\<rparr>"
proof -
  have a: "(0 :: nat) < length (snake grown)" "(3 :: nat) < length (snake grown)"
    by (simp_all add: grown_def started_def)
  have b: "\<not> hasPrevious grown 3"
    by (simp add: grown_def started_def hasPrevious_def)
  have c: "previousAt grown 0 = \<lparr>x = 3, y = 6\<rparr>" "snake grown ! 0 = \<lparr>x = 4, y = 6\<rparr>"
    "snake grown ! 3 = \<lparr>x = 1, y = 6\<rparr>"
    by (simp_all add: grown_def started_def previousAt_def)
  from centers_interpolate [OF a(1), of "1 / 2"]
  have d: "centers (1 / 2) grown ! 0 =
     (lerp (fst (cellCenter (tileSize grown) \<lparr>x = 3, y = 6\<rparr>))
           (fst (cellCenter (tileSize grown) \<lparr>x = 4, y = 6\<rparr>)) (1 / 2),
      lerp (snd (cellCenter (tileSize grown) \<lparr>x = 3, y = 6\<rparr>))
           (snd (cellCenter (tileSize grown) \<lparr>x = 4, y = 6\<rparr>)) (1 / 2))"
    unfolding c by (rule conjunct1)
  from centers_interpolate [OF a(2), of "1 / 2"] b
  have e: "centers (1 / 2) grown ! 3 = cellCenter (tileSize grown) \<lparr>x = 1, y = 6\<rparr>"
    unfolding c by blast
  from a b d e show ?thesis by blast
qed

section \<open>Direction requests\<close>

lemma switchKey_keyDirection:
  "switchKey key s =
     (case keyDirection key of
        None \<Rightarrow> s
      | Some d \<Rightarrow>
          if (x d \<noteq> 0 \<and> x (direction s) = - x d) \<or> (y d \<noteq> 0 \<and> y (direction s) = - y d)
          then s else s\<lparr>nextDirection := d\<rparr>)"
  by (simp add: switchKey_def keyDirection_def)

lemma keyDirection_unit: "keyDirection key = Some d \<Longrightarrow> unitDirection d"
  by (simp add: keyDirection_def unitDirection_def split: if_splits)

lemma keyDirection_starts: "keyDirection key = Some d \<Longrightarrow> startsGame key"
  unfolding keyDirection_def
  by (simp split: if_splits) ((elim disjE; simp add: startsGame_def)+)

lemma unitDirection_fields:
  "unitDirection d =
     (x d = 1 \<and> y d = 0 \<or> x d = - 1 \<and> y d = 0 \<or> x d = 0 \<and> y d = 1 \<or> x d = 0 \<and> y d = - 1)"
  unfolding unitDirection_def point_eq_iff by simp

lemma opposite_fields: "(d = opposite dir) = (x d = - x dir \<and> y d = - y dir)"
  unfolding point_eq_iff by (simp add: opposite_def)

lemma reversed_iff:
  "unitDirection d \<Longrightarrow> unitDirection dir \<Longrightarrow>
   ((x d \<noteq> 0 \<and> x dir = - x d) \<or> (y d \<noteq> 0 \<and> y dir = - y d)) = (d = opposite dir)"
  unfolding unitDirection_fields opposite_fields by arith

lemma switchKey_eq:
  assumes "unitDirection (direction s)"
  shows "switchKey key s =
           s\<lparr>nextDirection := last (nextDirection s # accepted (direction s) [key])\<rparr>"
proof (cases "keyDirection key")
  case None
  then show ?thesis
    by (simp add: switchKey_keyDirection accepted_def List.map_filter_simps)
next
  case (Some d)
  from reversed_iff [OF keyDirection_unit [OF Some] assms] Some show ?thesis
    by (simp add: switchKey_keyDirection accepted_def List.map_filter_simps)
qed

lemma switchKey_reversed:
  assumes "keyDirection key = Some d" "direction s = opposite d"
  shows "switchKey key s = s"
proof -
  from keyDirection_unit [OF assms(1)] assms(2) have "unitDirection (direction s)"
    unfolding unitDirection_fields by (auto simp: opposite_def)
  moreover from assms have "accepted (direction s) [key] = []"
    by (simp add: accepted_def List.map_filter_simps opposite_def)
  ultimately show ?thesis by (simp add: switchKey_eq)
qed

lemma keydown_started:
  "isRunning s \<or> isGameOver s \<Longrightarrow> keydown now key s = Some (switchKey key s)"
  by (auto simp: keydown_def)

lemma initGame_direction:
  assumes "initGame now s = Some s1"
  shows "direction s1 = \<lparr>x = 1, y = 0\<rparr>"
proof -
  let ?sn = "[\<lparr>x = 3, y = 6\<rparr>, \<lparr>x = 2, y = 6\<rparr>, \<lparr>x = 1, y = 6\<rparr>]"
  let ?s0 = "s\<lparr>snake := ?sn, previousSnake := Some ?sn, direction := \<lparr>x = 1, y = 0\<rparr>,
               nextDirection := \<lparr>x = 1, y = 0\<rparr>, score := 0, eatAnimMs := 0\<rparr>"
  from assms obtain p where p: "placeFood ?s0 = Some p"
    and s1: "s1 = p\<lparr>isRunning := True, isGameOver := False, lastTime := now, accumulator := 0\<rparr>"
    by (auto simp: initGame_def tileCount_def Let_def split: option.splits)
  from placeFood_fields(6) [OF p] show ?thesis unfolding s1 by simp
qed

lemma keydown_not_started:
  assumes "\<not> isRunning s" "\<not> isGameOver s" "direction s = \<lparr>x = 1, y = 0\<rparr>"
    "keyDirection key = Some d" "direction s = opposite d"
  shows "keydown now key s = initGame now s"
proof (cases "initGame now s")
  case None
  with assms(1,2) keyDirection_starts [OF assms(4)] show ?thesis
    by (simp add: keydown_def)
next
  case (Some s1)
  from initGame_direction [OF Some] assms(3,5) have "direction s1 = opposite d" by simp
  with assms(4) have "switchKey key s1 = s1" by (rule switchKey_reversed)
  with Some assms(1,2) keyDirection_starts [OF assms(4)] show ?thesis
    by (simp add: keydown_def)
qed

lemma accepted_Cons: "accepted dir (key # keys) = accepted dir [key] @ accepted dir keys"
  by (simp add: accepted_def List.map_filter_simps split: option.split)

lemma last_collapse: "last (a # xs @ ys) = last (last (a # xs) # ys)"
  by simp

lemma keydowns_eq:
  "isRunning s \<or> isGameOver s \<Longrightarrow> unitDirection (direction s) \<Longrightarrow>
   keydowns now keys s =
     Some (s\<lparr>nextDirection := last (nextDirection s # accepted (direction s) keys)\<rparr>)"
proof (induction keys arbitrary: s)
  case Nil
  then show ?case by (simp add: accepted_def List.map_filter_simps)
next
  case (Cons key keys)
  let ?s1 = "s\<lparr>nextDirection := last (nextDirection s # accepted (direction s) [key])\<rparr>"
  have k: "keydown now key s = Some ?s1"
    using Cons.prems by (simp add: keydown_started switchKey_eq)
  have "isRunning ?s1 \<or> isGameOver ?s1" "unitDirection (direction ?s1)"
    using Cons.prems by simp_all
  from Cons.IH [OF this] k show ?case
    by (simp add: accepted_Cons [of _ key keys] last_collapse del: last.simps)
qed

text \<open>The loop comes back to its test after any number of rounds that leave the game
  running.\<close>

lemma atLoopHead_steps:
  "atLoopHead s \<Longrightarrow> staysRunning k s \<Longrightarrow> steps k s = Some (Inr t) \<Longrightarrow> isRunning t \<Longrightarrow>
   of_nat k * moveInterval \<le> accumulator s \<Longrightarrow> atLoopHead t"
proof (induction k arbitrary: s)
  case 0
  then show ?case by simp
next
  case (Suc k)
  from Suc.prems(3) obtain s' where t: "tick s = Some (Inr s')" and r: "steps k s' = Some (Inr t)"
    by (auto split: option.splits sum.splits)
  have mi: "0 \<le> of_nat k * moveInterval" by (simp add: moveInterval_200)
  with Suc.prems(5) have due: "moveInterval \<le> accumulator s" by (simp add: algebra_simps)
  from Suc.prems(2) t have sr: "staysRunning k s'" by simp
  have run: "isRunning s'"
  proof (cases k)
    case 0
    with r Suc.prems(4) show ?thesis by simp
  next
    case (Suc j)
    with sr show ?thesis by simp
  qed
  from Suc.prems(1) due t run have h: "atLoopHead s'" by (rule atLoopHead.again)
  from tick_accumulator [OF t] Suc.prems(5) have "of_nat k * moveInterval \<le> accumulator s'"
    by (simp add: algebra_simps)
  from Suc.IH [OF h sr r Suc.prems(4) this] show ?case .
qed

lemma reachable_queuedUp: "reachable queuedUp"
proof -
  have "dispatch (Keydown 0 ''ArrowUp'') started = Some (Inr queuedUp)"
    by (simp add: dispatch_def keydown_def switchKey_def queuedUp_def started_def)
  with reachable_started show ?thesis by (rule reachable.event)
qed

lemma six_steps_up:
  "steps 6 (frameStart 1400 queuedUp) = Some (Inr (lastStep\<lparr>accumulator := 200\<rparr>))"
  "staysRunning 6 (frameStart 1400 queuedUp)"
  by (simp_all add: eval_nat_numeral frameStart_def queuedUp_def started_def lastStep_def tick_def
      step_eq nextHead_def outside_def tileCount_def turned_def moveInterval_200)

lemma last_step_crashes: "step lastStep = Some (Inr crashed)"
  by (simp add: lastStep_def crashed_def started_def step_eq nextHead_def outside_def
      turned_def gameOver_def)

lemma stepCalled_lastStep: "stepCalled lastStep"
proof -
  let ?t = "lastStep\<lparr>accumulator := 200\<rparr>"
  have r: "isRunning queuedUp" by (simp add: queuedUp_def started_def)
  have h: "atLoopHead (frameStart 1400 queuedUp)"
    using reachable_queuedUp r by (rule atLoopHead.enter)
  have rt: "isRunning ?t" by (simp add: lastStep_def started_def)
  have d: "of_nat 6 * moveInterval \<le> accumulator (frameStart 1400 queuedUp)"
    by (simp add: frameStart_def queuedUp_def started_def moveInterval_200)
  from atLoopHead_steps [OF h six_steps_up(2) six_steps_up(1) rt d] have ht: "atLoopHead ?t" .
  have dt: "moveInterval \<le> accumulator ?t" by (simp add: moveInterval_200)
  have e: "?t\<lparr>accumulator := accumulator ?t - moveInterval\<rparr> = lastStep"
    by (simp add: lastStep_def started_def moveInterval_200)
  from stepCalled.called [OF ht dt] show ?thesis unfolding e .
qed

lemma frame_crashes: "gameLoop 1400 queuedUp = Some (Inr (crashed, Some 0))"
proof -
  let ?t = "lastStep\<lparr>accumulator := 200\<rparr>"
  have r: "isRunning queuedUp" by (simp add: queuedUp_def started_def)
  have d: "of_nat 6 * moveInterval \<le> accumulator (frameStart 1400 queuedUp)"
    by (simp add: frameStart_def queuedUp_def started_def moveInterval_200)
  from stepLoop_steps [OF six_steps_up(2) d]
  have "stepLoop (frameStart 1400 queuedUp) = stepLoop ?t"
    by (simp add: six_steps_up(1) lastStep_def started_def)
  also have "\<dots> = Some (Inr crashed)"
  proof -
    have "tick ?t = Some (Inr crashed)"
      using last_step_crashes
      by (simp add: tick_def lastStep_def started_def moveInterval_200)
    then show ?thesis
      by (subst stepLoop_unfold) (simp add: moveInterval_200 crashed_def)
  qed
  finally have l: "stepLoop (frameStart 1400 queuedUp) = Some (Inr crashed)" .
  have "decay (1400 - lastTime queuedUp) crashed = crashed" "accumulator crashed = 0"
    by (simp_all add: decay_def crashed_def started_def)
  with l r show ?thesis
    by (simp add: gameLoop_def frameStart_def Let_def)
qed

lemma reachable_crashed: "reachable crashed"
proof -
  have "dispatch (AnimationFrame 1400) queuedUp = Some (Inr crashed)"
    by (simp add: dispatch_def frame_crashes)
  with reachable_queuedUp show ?thesis by (rule reachable.event)
qed

text \<open>
  C7, as the claim states it, fails. The player asks for Up while the snake moves right,
  then for Left before the next step. The request for Left is rejected, it changes
  nothing; but the request for Up is still queued, so at the next step the direction is
  Up and the head moves up, not right.
\<close>

theorem queued_turn_outlives_rejected_reversal:
  "gameLoop 200 queuedUp =
     Some (Inr (queuedUp\<lparr>lastTime := 200, direction := \<lparr>x = 0, y = - 1\<rparr>,
                         snake := [\<lparr>x = 3, y = 5\<rparr>, \<lparr>x = 3, y = 6\<rparr>, \<lparr>x = 2, y = 6\<rparr>]\<rparr>,
                Some 0)) \<and>
   (isRunning started \<and> keydown 0 ''ArrowUp'' started = Some queuedUp \<and>
    direction queuedUp = \<lparr>x = 1, y = 0\<rparr> \<and>
    keyDirection ''ArrowLeft'' = Some (opposite (direction queuedUp)) \<and>
    keydown 0 ''ArrowLeft'' queuedUp = Some queuedUp \<and>
    map_option (map_sum id direction) (step queuedUp) = Some (Inr \<lparr>x = 0, y = - 1\<rparr>) \<and>
    map_option (map_sum id snake) (step queuedUp) =
      Some (Inr [\<lparr>x = 3, y = 5\<rparr>, \<lparr>x = 3, y = 6\<rparr>, \<lparr>x = 2, y = 6\<rparr>]))"
proof -
  let ?t = "queuedUp\<lparr>lastTime := 200, direction := \<lparr>x = 0, y = - 1\<rparr>,
                     snake := [\<lparr>x = 3, y = 5\<rparr>, \<lparr>x = 3, y = 6\<rparr>, \<lparr>x = 2, y = 6\<rparr>]\<rparr>"
  have a: "isRunning started \<and> keydown 0 ''ArrowUp'' started = Some queuedUp \<and>
    direction queuedUp = \<lparr>x = 1, y = 0\<rparr> \<and>
    keyDirection ''ArrowLeft'' = Some (opposite (direction queuedUp)) \<and>
    keydown 0 ''ArrowLeft'' queuedUp = Some queuedUp \<and>
    map_option (map_sum id direction) (step queuedUp) = Some (Inr \<lparr>x = 0, y = - 1\<rparr>) \<and>
    map_option (map_sum id snake) (step queuedUp) =
      Some (Inr [\<lparr>x = 3, y = 5\<rparr>, \<lparr>x = 3, y = 6\<rparr>, \<lparr>x = 2, y = 6\<rparr>])"
    by (simp add: queuedUp_def started_def keydown_def switchKey_def keyDirection_def
        opposite_def step_eq nextHead_def outside_def tileCount_def turned_def)
  have t: "tick (frameStart 200 queuedUp) = Some (Inr ?t)"
    by (simp add: frameStart_def queuedUp_def started_def tick_def step_eq nextHead_def
        outside_def tileCount_def turned_def moveInterval_200)
  have "stepLoop ?t = Some (Inr ?t)"
    by (subst stepLoop_unfold) (simp add: queuedUp_def started_def moveInterval_200)
  then have l: "stepLoop (frameStart 200 queuedUp) = Some (Inr ?t)"
    by (subst stepLoop_unfold)
      (simp add: t, simp add: frameStart_def queuedUp_def started_def moveInterval_200)
  have "decay (200 - lastTime queuedUp) ?t = ?t" "accumulator ?t = 0" "isRunning queuedUp"
    by (simp_all add: decay_def queuedUp_def started_def)
  with l have b: "gameLoop 200 queuedUp = Some (Inr (?t, Some 0))"
    by (simp add: gameLoop_def frameStart_def Let_def)
  from b a show ?thesis by (rule conjI)
qed

text \<open>
  C7, amended. A request for the exact reverse of the applied direction is rejected in
  every state the page reaches: once a game has been started, running or over, the key
  press changes nothing; before the first game it starts the game as \<^verbatim>\<open>initGame\<close> does and
  changes nothing else. Key presses between two steps collapse to the last request that
  was not rejected. The next frame in which a step is due calls \<^verbatim>\<open>step()\<close> with the
  directions, the snake and the food as the key presses have left them. Every step the
  game takes makes the queued direction the applied one and computes the new head from
  it: it ends the game, or returns with the new head in front, or calls \<^verbatim>\<open>placeFood()\<close>
  with the new head in front. So with no other direction queued the next step keeps the
  direction: moving right, a request for Left leaves the direction Right and the head
  moves right when the step does not end the game, and likewise for the other three. With
  another direction queued before, the next step takes that one.
\<close>

theorem reversed_request_is_rejected:
  assumes "reachable s"
  shows "(keyDirection key = Some d \<longrightarrow> direction s = opposite d \<longrightarrow>
            keydown now key s = (if isRunning s \<or> isGameOver s then Some s else initGame now s)) \<and>
         (isRunning s \<or> isGameOver s \<longrightarrow>
            keydowns now keys s =
              Some (s\<lparr>nextDirection := last (nextDirection s # accepted (direction s) keys)\<rparr>)) \<and>
         (isRunning s \<longrightarrow> moveInterval \<le> accumulator (frameStart timestamp s) \<longrightarrow>
            stepCalled (firstStep timestamp s) \<and>
            direction (firstStep timestamp s) = direction s \<and>
            nextDirection (firstStep timestamp s) = nextDirection s \<and>
            snake (firstStep timestamp s) = snake s \<and>
            food (firstStep timestamp s) = food s) \<and>
         (stepCalled u \<longrightarrow>
            (outside (nextHead u) \<or> nextHead u \<in> set (snake u) \<longrightarrow>
               step u = Some (Inr (gameOver (turned u))) \<and>
               direction (gameOver (turned u)) = nextDirection u) \<and>
            (\<not> outside (nextHead u) \<longrightarrow> nextHead u \<notin> set (snake u) \<longrightarrow>
             food u \<noteq> Some (nextHead u) \<longrightarrow>
               step u = Some (Inr (moved u)) \<and>
               direction (moved u) = nextDirection u \<and>
               hd (snake (moved u)) = \<lparr>x = x (hd (snake u)) + x (nextDirection u),
                                        y = y (hd (snake u)) + y (nextDirection u)\<rparr>) \<and>
            (food u = Some (nextHead u) \<longrightarrow>
               step u = map_option Inr (placeFood (ate u)) \<and>
               direction (ate u) = nextDirection u \<and>
               hd (snake (ate u)) = \<lparr>x = x (hd (snake u)) + x (nextDirection u),
                                      y = y (hd (snake u)) + y (nextDirection u)\<rparr> \<and>
               (\<forall>p. placeFood (ate u) = Some p \<longrightarrow>
                  direction p = nextDirection u \<and>
                  hd (snake p) = \<lparr>x = x (hd (snake u)) + x (nextDirection u),
                                  y = y (hd (snake u)) + y (nextDirection u)\<rparr>)))"
proof -
  from reachable_invariant [OF assms] have u: "unitDirection (direction s)"
    and ns: "\<not> isRunning s \<and> \<not> isGameOver s \<longrightarrow> direction s = \<lparr>x = 1, y = 0\<rparr>"
    by (simp_all add: invariant_def)
  have rej: "keydown now key s = (if isRunning s \<or> isGameOver s then Some s else initGame now s)"
    if k: "keyDirection key = Some d" and o: "direction s = opposite d"
  proof (cases "isRunning s \<or> isGameOver s")
    case True
    with switchKey_reversed [OF k o] show ?thesis
      by (simp add: keydown_started)
  next
    case False
    with ns have "direction s = \<lparr>x = 1, y = 0\<rparr>" by simp
    with False keydown_not_started [of s key d now] k o show ?thesis by simp
  qed
  have col: "keydowns now keys s =
              Some (s\<lparr>nextDirection := last (nextDirection s # accepted (direction s) keys)\<rparr>)"
    if "isRunning s \<or> isGameOver s"
    using that u by (rule keydowns_eq)
  have stp: "(outside (nextHead u) \<or> nextHead u \<in> set (snake u) \<longrightarrow>
               step u = Some (Inr (gameOver (turned u))) \<and>
               direction (gameOver (turned u)) = nextDirection u) \<and>
            (\<not> outside (nextHead u) \<longrightarrow> nextHead u \<notin> set (snake u) \<longrightarrow>
             food u \<noteq> Some (nextHead u) \<longrightarrow>
               step u = Some (Inr (moved u)) \<and>
               direction (moved u) = nextDirection u \<and>
               hd (snake (moved u)) = \<lparr>x = x (hd (snake u)) + x (nextDirection u),
                                        y = y (hd (snake u)) + y (nextDirection u)\<rparr>) \<and>
            (food u = Some (nextHead u) \<longrightarrow>
               step u = map_option Inr (placeFood (ate u)) \<and>
               direction (ate u) = nextDirection u \<and>
               hd (snake (ate u)) = \<lparr>x = x (hd (snake u)) + x (nextDirection u),
                                      y = y (hd (snake u)) + y (nextDirection u)\<rparr> \<and>
               (\<forall>p. placeFood (ate u) = Some p \<longrightarrow>
                  direction p = nextDirection u \<and>
                  hd (snake p) = \<lparr>x = x (hd (snake u)) + x (nextDirection u),
                                  y = y (hd (snake u)) + y (nextDirection u)\<rparr>))"
    if sc: "stepCalled u"
  proof -
    from stepCalled_game_state [OF sc] obtain f where ne: "snake u \<noteq> []"
      and f: "food u = Some f" and fs: "f \<notin> set (snake u)" and fin: "\<not> outside f"
      by blast
    have c: "step u = Some (Inr (gameOver (turned u)))"
      if "outside (nextHead u) \<or> nextHead u \<in> set (snake u)"
      using ne that by (rule step_collides)
    have m: "step u = Some (Inr (moved u))"
      if "\<not> outside (nextHead u)" "nextHead u \<notin> set (snake u)" "food u \<noteq> Some (nextHead u)"
      using that f ne by (intro step_moves [of u f]) auto
    have e: "step u = map_option Inr (placeFood (ate u))" if "food u = Some (nextHead u)"
      using that f fs fin ne by (intro step_eats) simp_all
    have d: "direction (gameOver (turned u)) = nextDirection u"
      "direction (moved u) = nextDirection u" "direction (ate u) = nextDirection u"
      "hd (snake (moved u)) = \<lparr>x = x (hd (snake u)) + x (nextDirection u),
                                y = y (hd (snake u)) + y (nextDirection u)\<rparr>"
      "hd (snake (ate u)) = \<lparr>x = x (hd (snake u)) + x (nextDirection u),
                              y = y (hd (snake u)) + y (nextDirection u)\<rparr>"
      by (simp_all add: gameOver_def turned_def moved_def ate_def nextHead_def)
    have k: "direction p = nextDirection u \<and>
             hd (snake p) = \<lparr>x = x (hd (snake u)) + x (nextDirection u),
                             y = y (hd (snake u)) + y (nextDirection u)\<rparr>"
      if "placeFood (ate u) = Some p" for p
      using placeFood_fields(1,6) [OF that] d by simp
    from c m e d k show ?thesis by blast
  qed
  have fst: "stepCalled (firstStep timestamp s) \<and>
            direction (firstStep timestamp s) = direction s \<and>
            nextDirection (firstStep timestamp s) = nextDirection s \<and>
            snake (firstStep timestamp s) = snake s \<and>
            food (firstStep timestamp s) = food s"
    if r: "isRunning s" and d: "moveInterval \<le> accumulator (frameStart timestamp s)"
  proof -
    from assms r have "atLoopHead (frameStart timestamp s)" by (rule atLoopHead.enter)
    from stepCalled.called [OF this d] show ?thesis
      by (simp add: firstStep_def frameStart_def)
  qed
  from rej col fst stp show ?thesis by blast
qed

theorem reversed_request_is_rejected_witness:
  "(reachable started \<and> isRunning started \<and>
    keyDirection ''ArrowLeft'' = Some \<lparr>x = - 1, y = 0\<rparr> \<and>
    direction started = opposite \<lparr>x = - 1, y = 0\<rparr> \<and>
    nextDirection started = direction started \<and>
    keydown 0 ''ArrowLeft'' started = Some started \<and>
    keydowns 0 [''ArrowUp'', ''ArrowLeft'', ''ArrowDown''] started =
      Some (started\<lparr>nextDirection := \<lparr>x = 0, y = 1\<rparr>\<rparr>)) \<and>
   (reachable crashed \<and> isGameOver crashed \<and>
    keyDirection ''ArrowDown'' = Some \<lparr>x = 0, y = 1\<rparr> \<and>
    direction crashed = opposite \<lparr>x = 0, y = 1\<rparr> \<and>
    keydown 0 ''ArrowDown'' crashed = Some crashed) \<and>
   (reachable (loaded 300 300 zeros) \<and>
    \<not> isRunning (loaded 300 300 zeros) \<and> \<not> isGameOver (loaded 300 300 zeros) \<and>
    direction (loaded 300 300 zeros) = opposite \<lparr>x = - 1, y = 0\<rparr> \<and>
    keydown 0 ''ArrowLeft'' (loaded 300 300 zeros) = Some started) \<and>
   (moveInterval \<le> accumulator (frameStart 200 started) \<and>
    stepCalled (firstStep 200 started) \<and>
    nextDirection (firstStep 200 started) = nextDirection started \<and>
    step (firstStep 200 started) = Some (Inr (moved (firstStep 200 started))) \<and>
    direction (moved (firstStep 200 started)) = \<lparr>x = 1, y = 0\<rparr> \<and>
    hd (snake (moved (firstStep 200 started))) = \<lparr>x = 4, y = 6\<rparr>) \<and>
   (stepCalled secondStep \<and> nextDirection secondStep = \<lparr>x = 1, y = 0\<rparr> \<and>
    step secondStep = Some (Inr (moved secondStep)) \<and>
    direction (moved secondStep) = \<lparr>x = 1, y = 0\<rparr> \<and>
    hd (snake (moved secondStep)) = \<lparr>x = 5, y = 6\<rparr>) \<and>
   (stepCalled lastStep \<and> nextDirection lastStep = \<lparr>x = 0, y = - 1\<rparr> \<and>
    outside (nextHead lastStep) \<and>
    step lastStep = Some (Inr (gameOver (turned lastStep))) \<and>
    direction (gameOver (turned lastStep)) = \<lparr>x = 0, y = - 1\<rparr>) \<and>
   (stepCalled eatingStep \<and> nextDirection eatingStep = \<lparr>x = 1, y = 0\<rparr> \<and>
    food eatingStep = Some (nextHead eatingStep) \<and>
    step eatingStep = map_option Inr (placeFood (ate eatingStep)) \<and>
    direction (ate eatingStep) = \<lparr>x = 1, y = 0\<rparr> \<and>
    hd (snake (ate eatingStep)) = \<lparr>x = 4, y = 6\<rparr>)"
proof -
  note i1 = reversed_request_is_rejected [OF reachable_started,
      where key = "''ArrowLeft''" and d = "\<lparr>x = - 1, y = 0\<rparr>" and now = 0
        and keys = "[''ArrowUp'', ''ArrowLeft'', ''ArrowDown'']" and u = secondStep]
  note i2 = reversed_request_is_rejected [OF reachable_crashed,
      where key = "''ArrowDown''" and d = "\<lparr>x = 0, y = 1\<rparr>" and now = 0 and u = lastStep]
  have rl: "reachable (loaded 300 300 zeros)"
    by (rule reachable.loaded) (rule randomValues_zeros)
  note i3 = reversed_request_is_rejected [OF rl,
      where key = "''ArrowLeft''" and d = "\<lparr>x = - 1, y = 0\<rparr>" and now = 0 and u = eatingStep]
  have s1: "isRunning started" "keyDirection ''ArrowLeft'' = Some \<lparr>x = - 1, y = 0\<rparr>"
    "direction started = opposite \<lparr>x = - 1, y = 0\<rparr>" "nextDirection started = direction started"
    by (simp_all add: started_def keyDirection_def opposite_def)
  have acc: "last (nextDirection started #
               accepted (direction started) [''ArrowUp'', ''ArrowLeft'', ''ArrowDown'']) =
             \<lparr>x = 0, y = 1\<rparr>"
    by (simp add: accepted_def List.map_filter_simps keyDirection_def opposite_def started_def)
  from i1 s1 have A: "keydown 0 ''ArrowLeft'' started = Some started"
    "keydowns 0 [''ArrowUp'', ''ArrowLeft'', ''ArrowDown''] started =
      Some (started\<lparr>nextDirection := \<lparr>x = 0, y = 1\<rparr>\<rparr>)"
    unfolding acc by simp_all
  have c1: "isGameOver crashed" "keyDirection ''ArrowDown'' = Some \<lparr>x = 0, y = 1\<rparr>"
    "direction crashed = opposite \<lparr>x = 0, y = 1\<rparr>"
    by (simp_all add: crashed_def started_def keyDirection_def opposite_def)
  from i2 c1 have B: "keydown 0 ''ArrowDown'' crashed = Some crashed"
    by simp
  have l1: "\<not> isRunning (loaded 300 300 zeros)" "\<not> isGameOver (loaded 300 300 zeros)"
    "direction (loaded 300 300 zeros) = opposite \<lparr>x = - 1, y = 0\<rparr>"
    by (simp_all add: loaded_def resizeCanvas_def Let_def opposite_def)
  from i3 s1(2) l1 have C: "keydown 0 ''ArrowLeft'' (loaded 300 300 zeros) = Some started"
    by (simp add: initGame_zeros)
  have f0: "moveInterval \<le> accumulator (frameStart 200 started)"
    by (simp add: frameStart_def started_def moveInterval_200)
  from i1 s1(1) f0 have f1: "stepCalled (firstStep 200 started)"
    "nextDirection (firstStep 200 started) = nextDirection started"
    by blast+
  note i4 = reversed_request_is_rejected [OF reachable_started,
      where u = "firstStep 200 started"]
  have f2: "\<not> outside (nextHead (firstStep 200 started))"
    "nextHead (firstStep 200 started) \<notin> set (snake (firstStep 200 started))"
    "food (firstStep 200 started) \<noteq> Some (nextHead (firstStep 200 started))"
    "x (hd (snake (firstStep 200 started))) = 3" "y (hd (snake (firstStep 200 started))) = 6"
    "nextDirection (firstStep 200 started) = \<lparr>x = 1, y = 0\<rparr>"
    by (simp_all add: firstStep_def frameStart_def started_def nextHead_def outside_def
        tileCount_def)
  from i4 f1(1) f2(1,2,3)
  have "step (firstStep 200 started) = Some (Inr (moved (firstStep 200 started)))"
    "direction (moved (firstStep 200 started)) = nextDirection (firstStep 200 started)"
    "hd (snake (moved (firstStep 200 started))) =
       \<lparr>x = x (hd (snake (firstStep 200 started))) + x (nextDirection (firstStep 200 started)),
        y = y (hd (snake (firstStep 200 started))) + y (nextDirection (firstStep 200 started))\<rparr>"
    by blast+
  then have G: "step (firstStep 200 started) = Some (Inr (moved (firstStep 200 started)))"
    "direction (moved (firstStep 200 started)) = \<lparr>x = 1, y = 0\<rparr>"
    "hd (snake (moved (firstStep 200 started))) = \<lparr>x = 4, y = 6\<rparr>"
    by (simp_all add: f2)
  have m1: "nextDirection secondStep = \<lparr>x = 1, y = 0\<rparr>" "\<not> outside (nextHead secondStep)"
    "nextHead secondStep \<notin> set (snake secondStep)" "food secondStep \<noteq> Some (nextHead secondStep)"
    "x (hd (snake secondStep)) = 4" "y (hd (snake secondStep)) = 6"
    by (simp_all add: secondStep_def started_def nextHead_def outside_def tileCount_def)
  from i1 stepCalled_secondStep m1(2,3,4) have "step secondStep = Some (Inr (moved secondStep))"
    "direction (moved secondStep) = nextDirection secondStep"
    "hd (snake (moved secondStep)) =
       \<lparr>x = x (hd (snake secondStep)) + x (nextDirection secondStep),
        y = y (hd (snake secondStep)) + y (nextDirection secondStep)\<rparr>"
    by blast+
  then have D: "step secondStep = Some (Inr (moved secondStep))"
    "direction (moved secondStep) = \<lparr>x = 1, y = 0\<rparr>"
    "hd (snake (moved secondStep)) = \<lparr>x = 5, y = 6\<rparr>"
    by (simp_all add: m1)
  have w1: "nextDirection lastStep = \<lparr>x = 0, y = - 1\<rparr>" "outside (nextHead lastStep)"
    by (simp_all add: lastStep_def started_def nextHead_def outside_def)
  from i2 stepCalled_lastStep w1(2) have "step lastStep = Some (Inr (gameOver (turned lastStep)))"
    "direction (gameOver (turned lastStep)) = nextDirection lastStep"
    by blast+
  then have E: "step lastStep = Some (Inr (gameOver (turned lastStep)))"
    "direction (gameOver (turned lastStep)) = \<lparr>x = 0, y = - 1\<rparr>"
    by (simp_all add: w1)
  have e1: "nextDirection eatingStep = \<lparr>x = 1, y = 0\<rparr>"
    "food eatingStep = Some (nextHead eatingStep)"
    "x (hd (snake eatingStep)) = 3" "y (hd (snake eatingStep)) = 6"
    by (simp_all add: eatingStep_def startedAhead_def started_def nextHead_def)
  from i3 stepCalled_eatingStep e1(2)
  have "step eatingStep = map_option Inr (placeFood (ate eatingStep))"
    "direction (ate eatingStep) = nextDirection eatingStep"
    "hd (snake (ate eatingStep)) =
       \<lparr>x = x (hd (snake eatingStep)) + x (nextDirection eatingStep),
        y = y (hd (snake eatingStep)) + y (nextDirection eatingStep)\<rparr>"
    by blast+
  then have F: "step eatingStep = map_option Inr (placeFood (ate eatingStep))"
    "direction (ate eatingStep) = \<lparr>x = 1, y = 0\<rparr>"
    "hd (snake (ate eatingStep)) = \<lparr>x = 4, y = 6\<rparr>"
    by (simp_all add: e1)
  show ?thesis
    by (intro conjI reachable_started reachable_crashed rl stepCalled_secondStep
        stepCalled_lastStep stepCalled_eatingStep s1 A c1 B l1 C f0 f1 G m1(1) D w1 E
        e1(1,2) F)
qed

end
